theory Spec2Isabelle
  imports Main "HOL-Library.Word" "HOL-Library.Monad_Syntax"
begin

unbundle bit_operations_syntax

section \<open>Machine integers\<close>

text \<open>
  The program is C on 64-bit Windows: \<open>uint8_t\<close>, \<open>uint32_t\<close> and \<open>uint64_t\<close>
  are words of 8, 32 and 64 bits whose arithmetic wraps around, and \<open>__uint128_t\<close> is a
  word of 128 bits.  Fields of a C struct carry the suffix \<open>_C\<close>, so that a field does
  not capture the local variable of the same name (\<open>p\<close>, \<open>k\<close>, \<open>off\<close>).
  A function of the model returns \<open>None\<close> where the C function does not return to its
  caller: a loop that runs forever, an operation whose behaviour C leaves undefined, or a
  diagnostic followed by \<open>ExitProcess\<close>.
\<close>

type_synonym u8 = "8 word"
type_synonym u32 = "32 word"
type_synonym u64 = "64 word"
type_synonym u128 = "128 word"

abbreviation UINT64_MAX :: u64 where
  "UINT64_MAX \<equiv> - 1"

section \<open>FastDivU32: division of a 64-bit value by a 32-bit prime through mulhi\<close>

record FastDivU32 =
  d_C :: u32
  mul_C :: u64

definition mulhi_u64 :: "u64 \<Rightarrow> u64 \<Rightarrow> u64" where
  "mulhi_u64 a b = ucast (drop_bit 64 ((ucast a :: u128) * (ucast b :: u128)))"

definition fastdiv_u32_make_prime :: "u32 \<Rightarrow> FastDivU32" where
  "fastdiv_u32_make_prime d =
     (if d = 2 then \<lparr>d_C = d, mul_C = push_bit 63 1\<rparr>
      else \<lparr>d_C = d, mul_C = UINT64_MAX div (ucast d :: u64)\<rparr>)"

text \<open>One conditional correction: \<open>if (rr >= d) { rr -= d; ++q0; }\<close>.\<close>

definition fastdiv_correct :: "u64 \<Rightarrow> u64 \<times> u64 \<Rightarrow> u64 \<times> u64" where
  "fastdiv_correct d s = (case s of (rr, q0) \<Rightarrow> if rr \<ge> d then (rr - d, q0 + 1) else (rr, q0))"

text \<open>The result is the pair \<open>(*q, *r)\<close>; \<open>FASTDIV_2X_CORRECT\<close> is 1.\<close>

definition fastdiv_u32_divmod :: "FastDivU32 \<Rightarrow> u64 \<Rightarrow> u64 \<times> u32" where
  "fastdiv_u32_divmod fd n =
     (let d = (ucast (d_C fd) :: u64);
          q0 = mulhi_u64 n (mul_C fd);
          rr = n - q0 * d;
          (rr, q0) = fastdiv_correct d (rr, q0);
          (rr, q0) = fastdiv_correct d (rr, q0)
      in (q0, (ucast rr :: u32)))"

definition fastdiv_u32_mod :: "FastDivU32 \<Rightarrow> u64 \<Rightarrow> u32" where
  "fastdiv_u32_mod fd n = snd (fastdiv_u32_divmod fd n)"

text \<open>The result is the pair of the returned flag and the new value of \<open>*n_io\<close>.\<close>

definition fastdiv_u32_divide_if_divisible :: "FastDivU32 \<Rightarrow> u64 \<Rightarrow> bool \<times> u64" where
  "fastdiv_u32_divide_if_divisible fd n_io =
     (case fastdiv_u32_divmod fd n_io of (q, r) \<Rightarrow>
        if r \<noteq> 0 then (False, n_io) else (True, q))"

section \<open>Prime list up to k\<close>

text \<open>
  \<open>p_C\<close> is \<open>None\<close> for the null pointer.  \<open>calloc\<close> and \<open>malloc\<close> may fail: the
  parameter \<open>alloc_ok\<close> tells whether a request of that many bytes succeeds.
\<close>

record PrimeList =
  p_C :: "u32 list option"
  count_C :: u32

text \<open>\<open>for (uint32_t j = i * i; j <= n; j += i) mark[j] = 1;\<close>\<close>

partial_function (option) primes_mark_multiples :: "u32 \<Rightarrow> u32 \<Rightarrow> u32 \<Rightarrow> u8 list \<Rightarrow> u8 list option" where
  "primes_mark_multiples n i j mark =
     (if j \<le> n then primes_mark_multiples n i (j + i) (mark[unat j := 1]) else Some mark)"

text \<open>\<open>for (uint32_t i = 2; (uint64_t)i * (uint64_t)i <= n; ++i) ...\<close>\<close>

partial_function (option) primes_mark_loop :: "u32 \<Rightarrow> u32 \<Rightarrow> u8 list \<Rightarrow> u8 list option" where
  "primes_mark_loop n i mark =
     (if (ucast i :: u64) * (ucast i :: u64) \<le> ucast n then
        (if mark ! unat i \<noteq> 0 then primes_mark_loop n (i + 1) mark
         else do {
           mark' \<leftarrow> primes_mark_multiples n i (i * i) mark;
           primes_mark_loop n (i + 1) mark'
         })
      else Some mark)"

text \<open>\<open>for (uint32_t i = 2; i <= n; ++i) if (!mark[i]) ++cnt;\<close>\<close>

partial_function (option) primes_count_loop :: "u32 \<Rightarrow> u32 \<Rightarrow> u8 list \<Rightarrow> u32 \<Rightarrow> u32 option" where
  "primes_count_loop n i mark cnt =
     (if i \<le> n then primes_count_loop n (i + 1) mark (if mark ! unat i = 0 then cnt + 1 else cnt)
      else Some cnt)"

text \<open>\<open>for (uint32_t i = 2; i <= n; ++i) if (!mark[i]) p[w++] = i;\<close>\<close>

partial_function (option) primes_fill_loop :: "u32 \<Rightarrow> u32 \<Rightarrow> u8 list \<Rightarrow> u32 list \<Rightarrow> u32 \<Rightarrow> u32 list option" where
  "primes_fill_loop n i mark p w =
     (if i \<le> n then
        (if mark ! unat i = 0 then primes_fill_loop n (i + 1) mark (p[unat w := i]) (w + 1)
         else primes_fill_loop n (i + 1) mark p w)
      else Some p)"

declare primes_mark_multiples.simps [code]
declare primes_mark_loop.simps [code]
declare primes_count_loop.simps [code]
declare primes_fill_loop.simps [code]

definition primes_upto :: "(nat \<Rightarrow> bool) \<Rightarrow> u32 \<Rightarrow> PrimeList option" where
  "primes_upto alloc_ok n =
     (let out = \<lparr>p_C = None, count_C = 0\<rparr> in
      if n < 2 then Some out
      else if \<not> alloc_ok (unat n + 1) then Some out
      else do {
        mark \<leftarrow> primes_mark_loop n 2 (replicate (unat n + 1) 0);
        cnt \<leftarrow> primes_count_loop n 2 mark 0;
        if \<not> alloc_ok (unat cnt * 4) then Some out
        else do {
          p \<leftarrow> primes_fill_loop n 2 mark (replicate (unat cnt) 0) 0;
          Some \<lparr>p_C = Some p, count_C = cnt\<rparr>
        }
      })"

definition primes_free :: "PrimeList \<Rightarrow> PrimeList" where
  "primes_free pl = pl\<lparr>p_C := None, count_C := 0\<rparr>"

section \<open>Bitset helpers\<close>

definition bitset_clear :: "u8 list \<Rightarrow> u32 \<Rightarrow> u8 list" where
  "bitset_clear bits bit_count =
     (let nbytes = unat (drop_bit 3 (bit_count + 7)) in replicate nbytes 0 @ drop nbytes bits)"

definition bitset_set :: "u8 list \<Rightarrow> u32 \<Rightarrow> u8 list" where
  "bitset_set bits i =
     bits[unat (drop_bit 3 i) := (bits ! unat (drop_bit 3 i)) OR ucast (push_bit (unat (i AND 7)) (1 :: u32))]"

definition bitset_get :: "u8 list \<Rightarrow> u32 \<Rightarrow> u32" where
  "bitset_get bits i = (ucast (drop_bit (unat (i AND 7)) (bits ! unat (drop_bit 3 i))) :: u32) AND 1"


section \<open>The epoch, the job system and the worker context\<close>

text \<open>
  \<open>best_m_C\<close>, \<open>end_limit_C\<close> and \<open>active_workers_C\<close> are the atomics of the epoch; the
  event \<open>evt_done\<close> is the flag \<open>evt_done_C\<close>.  A null array is the empty list.
\<close>

record Epoch =
  k_C :: u32
  tile_len_C :: u32
  step_C :: u64
  start_m_C :: u64
  end_m_C :: u64
  primes_C :: PrimeList
  fd_C :: "FastDivU32 list"
  step_mod_C :: "u32 list"
  best_m_C :: u64
  end_limit_C :: u64
  active_workers_C :: u32
  evt_done_C :: bool

record JobSystem =
  thread_count_C :: u32
  epoch_C :: Epoch

record WorkerCtx =
  tid_C :: u32
  residual_C :: "u64 list"
  bad_bits_C :: "u8 list"
  cap_win_len_C :: u32
  off_C :: "u32 list"
  off_cap_C :: u32

text \<open>\<open>e->primes.p[i]\<close>\<close>

definition prime_at :: "Epoch \<Rightarrow> nat \<Rightarrow> u32" where
  "prime_at e i = (case p_C (primes_C e) of Some ps \<Rightarrow> ps ! i | None \<Rightarrow> 0)"

section \<open>Worker buffer management\<close>

definition ensure_worker_buffers :: "(nat \<Rightarrow> bool) \<Rightarrow> WorkerCtx \<Rightarrow> u32 \<Rightarrow> WorkerCtx option" where
  "ensure_worker_buffers alloc_ok w win_len =
     (if cap_win_len_C w \<ge> win_len then Some w
      else
        let residual_bytes = unat win_len * 8;
            bad_bytes = unat (drop_bit 3 (win_len + 7))
        in if \<not> alloc_ok residual_bytes \<or> \<not> alloc_ok bad_bytes then None
           else Some (w\<lparr>residual_C := replicate (unat win_len) 0,
                        bad_bits_C := replicate bad_bytes 0,
                        cap_win_len_C := win_len\<rparr>))"

definition ensure_worker_off :: "(nat \<Rightarrow> bool) \<Rightarrow> WorkerCtx \<Rightarrow> u32 \<Rightarrow> WorkerCtx option" where
  "ensure_worker_off alloc_ok w prime_count =
     (if prime_count = 0 then Some (w\<lparr>off_C := [], off_cap_C := 0\<rparr>)
      else if off_cap_C w \<ge> prime_count then Some w
      else if \<not> alloc_ok (unat prime_count * 4) then None
      else Some (w\<lparr>off_C := replicate (unat prime_count) 0, off_cap_C := prime_count\<rparr>))"

section \<open>Precomputed per-k epoch arrays\<close>

definition epoch_free_math :: "Epoch \<Rightarrow> Epoch" where
  "epoch_free_math e = e\<lparr>fd_C := [], step_mod_C := []\<rparr>"

definition epoch_prepare_math :: "(nat \<Rightarrow> bool) \<Rightarrow> JobSystem \<Rightarrow> JobSystem option" where
  "epoch_prepare_math alloc_ok js =
     (let e = epoch_free_math (epoch_C js);
          n = count_C (primes_C e)
      in if n = 0 then Some (js\<lparr>epoch_C := e\<rparr>)
         else if \<not> alloc_ok (unat n * 16) \<or> \<not> alloc_ok (unat n * 4) then None
         else
           let fd = map (\<lambda>i. fastdiv_u32_make_prime (prime_at e i)) [0..<unat n];
               step_mod = map (\<lambda>i. if prime_at e i = 2 then (ucast (step_C e AND 1) :: u32)
                                     else fastdiv_u32_mod (fd ! i) (step_C e)) [0..<unat n]
           in Some (js\<lparr>epoch_C := e\<lparr>fd_C := fd, step_mod_C := step_mod\<rparr>\<rparr>))"

section \<open>The tile sieve\<close>

text \<open>\<open>__builtin_ctzll(x)\<close>: the number of trailing zero bits; undefined for 0.\<close>

definition builtin_ctzll :: "u64 \<Rightarrow> nat option" where
  "builtin_ctzll x = (if x = 0 then None else Some (length (takeWhile (\<lambda>n. \<not> bit x n) [0..<64])))"

text \<open>\<open>while (fastdiv_u32_divide_if_divisible(f, &x)) { }\<close>\<close>

partial_function (option) strip_odd_prime :: "FastDivU32 \<Rightarrow> u64 \<Rightarrow> u64 option" where
  "strip_odd_prime f x =
     (let r = fastdiv_u32_divide_if_divisible f x in
      if fst r then strip_odd_prime f (snd r) else Some (snd r))"

declare strip_odd_prime.simps [code]

text \<open>The body of the loop over the multiples of p: the new value of \<open>residual[i]\<close>.\<close>

definition strip_prime :: "u32 \<Rightarrow> FastDivU32 \<Rightarrow> u64 \<Rightarrow> u64 option" where
  "strip_prime p f x =
     (if p = 2 then do { n \<leftarrow> builtin_ctzll x; Some (drop_bit n x) }
      else strip_odd_prime f x)"

text \<open>\<open>for (uint32_t i = off[pi]; i < win_len; i += p) ...\<close>\<close>

partial_function (option) sieve_multiples :: "u32 \<Rightarrow> FastDivU32 \<Rightarrow> u32 \<Rightarrow> u32 \<Rightarrow> u64 list \<Rightarrow> u64 list option" where
  "sieve_multiples p f win_len i residual =
     (if i < win_len then do {
        x \<leftarrow> strip_prime p f (residual ! unat i);
        sieve_multiples p f win_len (i + p) (residual[unat i := x])
      }
      else Some residual)"

declare sieve_multiples.simps [code]

text \<open>The carry of the offset of one prime to the next tile of the worker's stream.\<close>

definition carry_offset :: "u32 \<Rightarrow> u32 \<Rightarrow> u32 \<Rightarrow> u32" where
  "carry_offset p sm off_pi =
     (if sm \<noteq> 0 then (if off_pi \<ge> sm then off_pi - sm else off_pi + p - sm) else off_pi)"

text \<open>\<open>for (uint32_t pi = 0; pi < pc; ++pi) ...\<close>, over the list of the indices.\<close>

fun sieve_primes :: "Epoch \<Rightarrow> u32 \<Rightarrow> nat list \<Rightarrow> u32 list \<times> u64 list \<Rightarrow> (u32 list \<times> u64 list) option" where
  "sieve_primes e win_len [] (off, residual) = Some (off, residual)"
| "sieve_primes e win_len (pi # pis) (off, residual) =
     (let p = prime_at e pi in
      do {
        residual' \<leftarrow> sieve_multiples p (fd_C e ! pi) win_len (off ! pi) residual;
        let sm = step_mod_C e ! pi;
        sieve_primes e win_len pis (off[pi := carry_offset p sm (off ! pi)], residual')
      })"

text \<open>The result is the triple of the arrays \<open>off\<close>, \<open>residual\<close> and \<open>bad_bits\<close> on return.\<close>

definition sieve_window_bad_bits_carried_fastdiv ::
  "Epoch \<Rightarrow> u64 \<Rightarrow> u32 \<Rightarrow> u32 list \<Rightarrow> u64 list \<Rightarrow> u8 list \<Rightarrow> (u32 list \<times> u64 list \<times> u8 list) option" where
  "sieve_window_bad_bits_carried_fastdiv e base_test start_count off residual bad_bits =
     (let k = k_C e;
          win_len = start_count + k;
          residual = fold (\<lambda>i r. r[i := base_test + of_nat i]) [0..<unat win_len] residual;
          bad_bits = bitset_clear bad_bits win_len;
          pc = count_C (primes_C e)
      in do {
        (off, residual) \<leftarrow> sieve_primes e win_len [0..<unat pc] (off, residual);
        let bad_bits = fold (\<lambda>i b. if residual ! i = 1 then bitset_set b (of_nat i) else b)
                         [0..<unat win_len] bad_bits;
        Some (off, residual, bad_bits)
      })"

section \<open>The window scan\<close>

text \<open>
  \<open>for (uint32_t s = 1; s < start_count; ++s) ...\<close>, over the list of the values of s,
  with the running count \<open>bad\<close>.
\<close>

fun scan_windows :: "u8 list \<Rightarrow> u32 \<Rightarrow> u64 \<Rightarrow> u32 \<Rightarrow> nat list \<Rightarrow> u64" where
  "scan_windows bad_bits k m0 bad [] = UINT64_MAX"
| "scan_windows bad_bits k m0 bad (s # ss) =
     (let bad = bad - bitset_get bad_bits (of_nat s - 1);
          bad = bad + bitset_get bad_bits (of_nat s + k - 1)
      in if bad = 0 then m0 + of_nat s else scan_windows bad_bits k m0 bad ss)"

text \<open>Lines 387 to 396 of the source: the scan of the bits the sieve has left.\<close>

definition window_scan :: "u8 list \<Rightarrow> u32 \<Rightarrow> u64 \<Rightarrow> u32 \<Rightarrow> u64" where
  "window_scan bad_bits k m0 start_count =
     (let bad = fold (\<lambda>i bad. bad + bitset_get bad_bits (of_nat i)) [0..<unat k] (0 :: u32)
      in if bad = 0 then m0
         else scan_windows bad_bits k m0 bad [1..<unat start_count])"

text \<open>The result is the returned m and the arrays \<open>off\<close>, \<open>residual\<close>, \<open>bad_bits\<close> on return.\<close>

definition scan_tile_find_m_carried_fastdiv ::
  "Epoch \<Rightarrow> u64 \<Rightarrow> u32 \<Rightarrow> u32 list \<Rightarrow> u64 list \<Rightarrow> u8 list \<Rightarrow> (u64 \<times> u32 list \<times> u64 list \<times> u8 list) option" where
  "scan_tile_find_m_carried_fastdiv e m0 start_count off residual bad_bits =
     (if start_count = 0 then Some (UINT64_MAX, off, residual, bad_bits)
      else
        let k = k_C e;
            win_len = start_count + k
        in if win_len < k then Some (UINT64_MAX, off, residual, bad_bits)
           else do {
             (off, residual, bad_bits) \<leftarrow>
               sieve_window_bad_bits_carried_fastdiv e (m0 + 1) start_count off residual bad_bits;
             Some (window_scan bad_bits k m0 start_count, off, residual, bad_bits)
           })"

section \<open>Worker epoch init\<close>

definition worker_init_offsets_for_epoch :: "(nat \<Rightarrow> bool) \<Rightarrow> Epoch \<Rightarrow> WorkerCtx \<Rightarrow> WorkerCtx option" where
  "worker_init_offsets_for_epoch alloc_ok e w =
     (let pc = count_C (primes_C e) in
      do {
        w \<leftarrow> ensure_worker_off alloc_ok w pc;
        if pc = 0 then Some w
        else
          let base_test0 = start_m_C e + ucast (tid_C w) * ucast (tile_len_C e) + 1;
              off = fold (\<lambda>pi off.
                      let p = prime_at e pi in
                      if p = 2 then off[pi := (ucast (base_test0 AND 1) :: u32)]
                      else let r = fastdiv_u32_mod (fd_C e ! pi) base_test0
                           in off[pi := (if r \<noteq> 0 then p - r else 0)])
                    [0..<unat pc] (off_C w)
          in Some (w\<lparr>off_C := off\<rparr>)
      })"



section \<open>The atomics of the epoch\<close>

definition load_u64 :: "u64 \<Rightarrow> u64" where
  "load_u64 v = v"

text \<open>
  \<open>InterlockedCompareExchange64(dest, exchange, comparand)\<close>: the new value of the
  destination and the returned initial value.
\<close>

definition InterlockedCompareExchange64 :: "u64 \<Rightarrow> u64 \<Rightarrow> u64 \<Rightarrow> u64 \<times> u64" where
  "InterlockedCompareExchange64 dest exchange comparand =
     ((if dest = comparand then exchange else dest), dest)"

text \<open>
  \<open>try_set_best\<close> touches the atomics in four places.  Between two of them another
  worker may run, so the function is a machine whose control points are the four accesses:
  the load of \<open>best_m\<close> (line 210), the exchange on \<open>best_m\<close> (line 213, with \<open>cur\<close>),
  the load of \<open>end_limit\<close> (line 216, with \<open>new_lim\<close>) and the exchange on \<open>end_limit\<close>
  (line 218, with \<open>new_lim\<close> and \<open>old_lim\<close>).
\<close>

datatype tsb_pc =
  TSB_load_best
  | TSB_cas_best u64
  | TSB_load_lim u64
  | TSB_cas_lim u64 u64
  | TSB_return

fun try_set_best_step :: "u64 \<Rightarrow> tsb_pc \<Rightarrow> Epoch \<Rightarrow> tsb_pc \<times> Epoch" where
  "try_set_best_step m TSB_load_best e =
     (let cur = load_u64 (best_m_C e) in
      if m \<ge> cur then (TSB_return, e) else (TSB_cas_best cur, e))"
| "try_set_best_step m (TSB_cas_best cur) e =
     (case InterlockedCompareExchange64 (best_m_C e) m cur of (v, old) \<Rightarrow>
        if old = cur then
          (let new_lim = (if m = 0 then 0 else m - 1) in (TSB_load_lim new_lim, e\<lparr>best_m_C := v\<rparr>))
        else (TSB_load_best, e\<lparr>best_m_C := v\<rparr>))"
| "try_set_best_step m (TSB_load_lim new_lim) e =
     (let old_lim = load_u64 (end_limit_C e) in
      if new_lim \<ge> old_lim then (TSB_return, e) else (TSB_cas_lim new_lim old_lim, e))"
| "try_set_best_step m (TSB_cas_lim new_lim old_lim) e =
     (case InterlockedCompareExchange64 (end_limit_C e) new_lim old_lim of (v, old) \<Rightarrow>
        if old = old_lim then (TSB_return, e\<lparr>end_limit_C := v\<rparr>)
        else (TSB_load_lim new_lim, e\<lparr>end_limit_C := v\<rparr>))"
| "try_set_best_step m TSB_return e = (TSB_return, e)"

text \<open>The machine run by one thread with no other thread between its steps.\<close>

partial_function (option) try_set_best_run :: "u64 \<Rightarrow> tsb_pc \<Rightarrow> Epoch \<Rightarrow> Epoch option" where
  "try_set_best_run m pc e =
     (if pc = TSB_return then Some e
      else let s = try_set_best_step m pc e in try_set_best_run m (fst s) (snd s))"

declare try_set_best_run.simps [code]

definition try_set_best :: "JobSystem \<Rightarrow> u64 \<Rightarrow> JobSystem option" where
  "try_set_best js m =
     do { e \<leftarrow> try_set_best_run m TSB_load_best (epoch_C js); Some (js\<lparr>epoch_C := e\<rparr>) }"

text \<open>\<open>InterlockedDecrement\<close> of the active workers, and \<open>SetEvent\<close> by the last one.\<close>

definition worker_epoch_done :: "Epoch \<Rightarrow> Epoch" where
  "worker_epoch_done e =
     (let a = active_workers_C e - 1;
          e = e\<lparr>active_workers_C := a\<rparr>
      in if a = 0 then e\<lparr>evt_done_C := True\<rparr> else e)"

section \<open>The worker thread\<close>

text \<open>
  The control points of \<open>worker_main\<close>: in \<open>GetQueuedCompletionStatus\<close> (line 438); a
  \<open>KEY_START\<close> received (line 442); the head of the tile loop with the worker's \<open>base\<close>
  (line 449); inside \<open>try_set_best\<close> for the m found in the tile at \<open>base\<close>; and about
  to call \<open>worker_epoch_done\<close> (line 451).  One step of a worker runs from one access to
  the shared state to the next; what lies between is local to the worker.

  The completion port \<open>js->iocp\<close> is the number q of \<open>KEY_START\<close> packets queued on it.
  A worker in \<open>GetQueuedCompletionStatus\<close> stays there while the port is empty and takes
  one packet otherwise, whichever worker it is: after \<open>worker_epoch_done\<close> a worker is
  back at line 438 and may take a packet posted for the same epoch.
\<close>

datatype worker_pc =
  PC_wait
  | PC_start
  | PC_tile u64
  | PC_try_set_best u64 u64 tsb_pc
  | PC_epoch_done

fun worker_step :: "(nat \<Rightarrow> bool) \<Rightarrow> nat \<Rightarrow> Epoch \<Rightarrow> WorkerCtx \<Rightarrow> worker_pc
    \<Rightarrow> (nat \<times> Epoch \<times> WorkerCtx \<times> worker_pc) option" where
  "worker_step alloc_ok q e w PC_wait =
     (if q = 0 then Some (q, e, w, PC_wait) else Some (q - 1, e, w, PC_start))"
| "worker_step alloc_ok q e w PC_start =
     (let base = start_m_C e + ucast (tid_C w) * ucast (tile_len_C e) in
      do {
        w \<leftarrow> worker_init_offsets_for_epoch alloc_ok e w;
        Some (q, e, w, PC_tile base)
      })"
| "worker_step alloc_ok q e w (PC_tile base) =
     (let lim = load_u64 (end_limit_C e) in
      if base > lim then Some (q, e, w, PC_epoch_done)
      else
        let max_starts = lim - base + 1;
            start_count = (if max_starts \<ge> ucast (tile_len_C e) then tile_len_C e
                           else (ucast max_starts :: u32));
            win_len = start_count + k_C e
        in do {
          w \<leftarrow> ensure_worker_buffers alloc_ok w win_len;
          (found, off, residual, bad_bits) \<leftarrow>
            scan_tile_find_m_carried_fastdiv e base start_count (off_C w) (residual_C w) (bad_bits_C w);
          let w = w\<lparr>off_C := off, residual_C := residual, bad_bits_C := bad_bits\<rparr>;
          if found \<noteq> UINT64_MAX then Some (q, e, w, PC_try_set_best base found TSB_load_best)
          else Some (q, e, w, PC_tile (base + step_C e))
        })"
| "worker_step alloc_ok q e w (PC_try_set_best base m pc) =
     (case try_set_best_step m pc e of (pc', e') \<Rightarrow>
        if pc' = TSB_return then Some (q, e', w, PC_tile (base + step_C e))
        else Some (q, e', w, PC_try_set_best base m pc'))"
| "worker_step alloc_ok q e w PC_epoch_done = Some (q, worker_epoch_done e, w, PC_wait)"

section \<open>Epoch orchestration\<close>

text \<open>
  The state of the threads is the port, the epoch and the list of the workers with their
  control points.  \<open>epoch_begin\<close> posts \<open>thread_count\<close> packets (lines 493-494).  The
  scheduler is the parameter \<open>sched\<close>: the worker \<open>sched t\<close> performs the step number t.
\<close>

type_synonym workers = "(WorkerCtx \<times> worker_pc) list"

definition epoch_begin :: "JobSystem \<Rightarrow> nat \<Rightarrow> u32 \<Rightarrow> u64 \<Rightarrow> u64 \<Rightarrow> u32 \<Rightarrow> JobSystem \<times> nat" where
  "epoch_begin js q k start_m end_m tile_len =
     (let e = epoch_C js;
          e = e\<lparr>k_C := k, tile_len_C := tile_len, start_m_C := start_m, end_m_C := end_m,
                 step_C := ucast tile_len * ucast (thread_count_C js)\<rparr>;
          e = e\<lparr>best_m_C := UINT64_MAX\<rparr>;
          e = e\<lparr>end_limit_C := end_m\<rparr>;
          e = e\<lparr>evt_done_C := False\<rparr>;
          e = e\<lparr>active_workers_C := thread_count_C js\<rparr>
      in (js\<lparr>epoch_C := e\<rparr>, q + unat (thread_count_C js)))"

definition threads_step :: "(nat \<Rightarrow> bool) \<Rightarrow> nat \<Rightarrow> nat \<times> Epoch \<times> workers \<Rightarrow> (nat \<times> Epoch \<times> workers) option" where
  "threads_step alloc_ok i s =
     (case s of (q, e, ws) \<Rightarrow>
        if i < length ws then
          do {
            (q', e', w', pc') \<leftarrow> worker_step alloc_ok q e (fst (ws ! i)) (snd (ws ! i));
            Some (q', e', ws[i := (w', pc')])
          }
        else Some (q, e, ws))"

text \<open>\<open>WaitForSingleObject(evt_done)\<close>: the threads run until the event is set.\<close>

partial_function (option) threads_run ::
  "(nat \<Rightarrow> bool) \<Rightarrow> (nat \<Rightarrow> nat) \<Rightarrow> nat \<Rightarrow> nat \<times> Epoch \<times> workers \<Rightarrow> ((nat \<times> Epoch \<times> workers) \<times> nat) option" where
  "threads_run alloc_ok sched t s =
     (if evt_done_C (fst (snd s)) then Some (s, t)
      else do {
        s' \<leftarrow> threads_step alloc_ok (sched t) s;
        threads_run alloc_ok sched (Suc t) s'
      })"

declare threads_run.simps [code]

text \<open>
  The result is the returned \<open>best_m\<close>, the job system, the port, the workers and the step
  count.
\<close>

definition epoch_wait ::
  "(nat \<Rightarrow> bool) \<Rightarrow> (nat \<Rightarrow> nat) \<Rightarrow> nat \<Rightarrow> JobSystem \<Rightarrow> nat \<Rightarrow> workers
     \<Rightarrow> (u64 \<times> JobSystem \<times> nat \<times> workers \<times> nat) option" where
  "epoch_wait alloc_ok sched t js q ws =
     do {
       ((q, e, ws), t) \<leftarrow> threads_run alloc_ok sched t (q, epoch_C js, ws);
       Some (load_u64 (best_m_C e), js\<lparr>epoch_C := e\<rparr>, q, ws, t)
     }"

definition safe_add_u64 :: "u64 \<Rightarrow> u64 \<Rightarrow> u64" where
  "safe_add_u64 a b = (let c = a + b in if c < a then UINT64_MAX else c)"

text \<open>The loop over the batches of \<open>find_m_for_k\<close>, with the cursor \<open>cur\<close>.\<close>

partial_function (option) find_m_batches ::
  "(nat \<Rightarrow> bool) \<Rightarrow> (nat \<Rightarrow> nat) \<Rightarrow> u32 \<Rightarrow> u32 \<Rightarrow> u64 \<Rightarrow> (nat \<times> JobSystem \<times> nat \<times> workers) \<Rightarrow> u64
     \<Rightarrow> (u64 \<times> JobSystem \<times> nat \<times> workers \<times> nat) option" where
  "find_m_batches alloc_ok sched k tile_len batch_tiles st cur =
     (case st of (t, js, q, ws) \<Rightarrow>
      let span = ucast tile_len * batch_tiles;
          span = (if span = 0 then ucast tile_len else span);
          end = safe_add_u64 cur (span - 1)
      in case epoch_begin js q k cur end tile_len of (js, q) \<Rightarrow>
         do {
           (best, js, q, ws, t) \<leftarrow> epoch_wait alloc_ok sched t js q ws;
           if best \<noteq> UINT64_MAX then
             Some (best, js\<lparr>epoch_C := epoch_free_math ((epoch_C js)\<lparr>primes_C := primes_free (primes_C (epoch_C js))\<rparr>)\<rparr>, q, ws, t)
           else find_m_batches alloc_ok sched k tile_len batch_tiles (t, js, q, ws) (safe_add_u64 end 1)
         })"

declare find_m_batches.simps [code]

definition find_m_for_k ::
  "(nat \<Rightarrow> bool) \<Rightarrow> (nat \<Rightarrow> nat) \<Rightarrow> nat \<Rightarrow> JobSystem \<Rightarrow> nat \<Rightarrow> workers \<Rightarrow> u32 \<Rightarrow> u64 \<Rightarrow> u32 \<Rightarrow> u64
     \<Rightarrow> (u64 \<times> JobSystem \<times> nat \<times> workers \<times> nat) option" where
  "find_m_for_k alloc_ok sched t js q ws k start_m tile_len batch_tiles =
     do {
       primes \<leftarrow> primes_upto alloc_ok k;
       let e = (epoch_C js)\<lparr>primes_C := primes\<rparr>;
       let e = e\<lparr>k_C := k, tile_len_C := tile_len,
                  step_C := ucast tile_len * ucast (thread_count_C js)\<rparr>;
       js \<leftarrow> epoch_prepare_math alloc_ok (js\<lparr>epoch_C := e\<rparr>);
       find_m_batches alloc_ok sched k tile_len batch_tiles (t, js, q, ws) start_m
     }"

section \<open>Main\<close>

text \<open>
  \<open>for (uint32_t k = 1; k <= K; ++k) ...\<close>: the rows printed so far are \<open>rows\<close>, and
  \<open>ms\<close> collects every m the loop has computed.
\<close>

partial_function (option) main_loop ::
  "(nat \<Rightarrow> bool) \<Rightarrow> (nat \<Rightarrow> nat) \<Rightarrow> u32 \<Rightarrow> u32 \<Rightarrow> u64 \<Rightarrow> u32 \<Rightarrow> (nat \<times> JobSystem \<times> nat \<times> workers) \<Rightarrow> u64 \<times> u64
     \<Rightarrow> (u32 \<times> u64) list \<times> u64 list \<Rightarrow> ((u32 \<times> u64) list \<times> u64 list) option" where
  "main_loop alloc_ok sched K tile_len batch_tiles k st lasts out =
     (if k \<le> K then
        (case st of (t, js, q, ws) \<Rightarrow>
         case lasts of (last_m, last_print) \<Rightarrow>
         case out of (rows, ms) \<Rightarrow>
         do {
           (m, js, q, ws, t) \<leftarrow> find_m_for_k alloc_ok sched t js q ws k last_m tile_len batch_tiles;
           if m \<noteq> last_print then
             main_loop alloc_ok sched K tile_len batch_tiles (k + 1) (t, js, q, ws) (m, m) (rows @ [(k, m)], ms @ [m])
           else
             main_loop alloc_ok sched K tile_len batch_tiles (k + 1) (t, js, q, ws) (m, last_print) (rows, ms @ [m])
         })
      else Some out)"

declare main_loop.simps [code]

text \<open>
  \<open>start_workers\<close> on a machine with \<open>total_lp\<close> logical processors clamps the thread
  count and fills \<open>w[0..thread_count)\<close>, an array of \<open>cap\<close> elements: there is no result when
  it writes past the array.  Each worker starts at line 438.
\<close>

definition start_workers :: "u32 \<Rightarrow> nat \<Rightarrow> JobSystem \<Rightarrow> (JobSystem \<times> workers) option" where
  "start_workers total_lp cap js =
     (let js = (if thread_count_C js = 0 then js\<lparr>thread_count_C := total_lp\<rparr> else js);
          js = (if thread_count_C js > total_lp then js\<lparr>thread_count_C := total_lp\<rparr> else js)
      in if cap < unat (thread_count_C js) then None
         else Some (js, map (\<lambda>i. (\<lparr>tid_C = of_nat i, residual_C = [], bad_bits_C = [], cap_win_len_C = 0,
                                     off_C = [], off_cap_C = 0\<rparr>, PC_wait)) [0..<unat (thread_count_C js)]))"

text \<open>
  \<open>main\<close> after the parsing of its arguments: the arrays of the workers have \<open>threads\<close>
  elements (line 654), and the port is empty.  The result is the rows printed after the
  header line and the list of every m computed.
\<close>

definition main_run ::
  "(nat \<Rightarrow> bool) \<Rightarrow> (nat \<Rightarrow> nat) \<Rightarrow> u32 \<Rightarrow> u32 \<Rightarrow> u32 \<Rightarrow> u32 \<Rightarrow> u64 \<Rightarrow> ((u32 \<times> u64) list \<times> u64 list) option" where
  "main_run alloc_ok sched total_lp K threads tile_len batch_tiles =
     (let e0 = \<lparr>k_C = 0, tile_len_C = 0, step_C = 0, start_m_C = 0, end_m_C = 0,
                 primes_C = \<lparr>p_C = None, count_C = 0\<rparr>, fd_C = [], step_mod_C = [],
                 best_m_C = 0, end_limit_C = 0, active_workers_C = 0, evt_done_C = False\<rparr>;
          js = \<lparr>thread_count_C = threads, epoch_C = e0\<rparr>
      in do {
           (js, ws) \<leftarrow> start_workers total_lp (unat threads) js;
           main_loop alloc_ok sched K tile_len batch_tiles 1 (0, js, 0, ws) (0, UINT64_MAX) ([], [])
         })"

section \<open>The notions of the specification\<close>

text \<open>A prime number, and a k-smooth number: a positive integer whose prime factors are all at most k.\<close>

definition is_prime :: "nat \<Rightarrow> bool" where
  "is_prime p = (2 \<le> p \<and> (\<forall>q \<in> {2..<p}. \<not> q dvd p))"

definition k_smooth :: "nat \<Rightarrow> nat \<Rightarrow> bool" where
  "k_smooth k n = (0 < n \<and> (\<forall>q \<in> {2..n}. is_prime q \<and> q dvd n \<longrightarrow> q \<le> k))"


text \<open>
  A control point of \<open>try_set_best\<close> as the machine itself reaches it: the exchange on
  \<open>end_limit\<close> is only entered with \<open>new_lim < old_lim\<close> (line 217).
\<close>

fun tsb_pc_ok :: "tsb_pc \<Rightarrow> bool" where
  "tsb_pc_ok (TSB_cas_lim new_lim old_lim) = (new_lim < old_lim)"
| "tsb_pc_ok _ = True"

section \<open>Windows of bits\<close>

text \<open>
  The bit of index j of a bitset, as a truth value; the number of set bits among the k bits
  from s on; and the two kinds of window the scans look for.
\<close>

definition bit_at :: "u8 list \<Rightarrow> nat \<Rightarrow> bool" where
  "bit_at bits j = bit (bits ! (j div 8)) (j mod 8)"

definition wcount :: "u8 list \<Rightarrow> nat \<Rightarrow> nat \<Rightarrow> nat" where
  "wcount bits s k = length (filter (bit_at bits) [s..<s + k])"

definition window_all_clear :: "u8 list \<Rightarrow> nat \<Rightarrow> nat \<Rightarrow> bool" where
  "window_all_clear bits k s = (\<forall>i \<in> {s..<s + k}. \<not> bit_at bits i)"

definition window_all_set :: "u8 list \<Rightarrow> nat \<Rightarrow> nat \<Rightarrow> bool" where
  "window_all_set bits k s = (\<forall>i \<in> {s..<s + k}. bit_at bits i)"

text \<open>
  The window scan as section 4.5 of the specification words it (the normalized
  convention): \<open>count\<close> starts as the number of set bits among the first k; for s from 1 to
  \<open>start_count - 1\<close> it becomes \<open>count + bit[s+k-1] - bit[s-1]\<close>; a hit is \<open>count = k\<close>; the
  result is the smallest s that is a hit, or none.
\<close>

fun scan_windows_normalized :: "u8 list \<Rightarrow> nat \<Rightarrow> nat \<Rightarrow> nat list \<Rightarrow> nat option" where
  "scan_windows_normalized bits k count [] = None"
| "scan_windows_normalized bits k count (s # ss) =
     (let count = count + (if bit_at bits (s + k - 1) then 1 else 0) - (if bit_at bits (s - 1) then 1 else 0)
      in if count = k then Some s else scan_windows_normalized bits k count ss)"

definition window_scan_normalized :: "u8 list \<Rightarrow> nat \<Rightarrow> nat \<Rightarrow> nat option" where
  "window_scan_normalized bits k start_count =
     (let count = length (filter (bit_at bits) [0..<k])
      in if count = k then Some 0
         else scan_windows_normalized bits k count [1..<start_count])"

section \<open>Notions for the tile sieve\<close>

text \<open>
  \<open>stripped p x y\<close>: y is x with every factor p divided out.
\<close>

definition stripped :: "nat \<Rightarrow> nat \<Rightarrow> nat \<Rightarrow> bool" where
  "stripped p x y = (\<exists>a. x = p ^ a * y \<and> \<not> p dvd y)"

text \<open>
  The prime list and the reciprocals of an epoch as \<open>find_m_for_k\<close> sets them up: the primes
  \<open>P[0..pc)\<close> are the primes up to k in ascending order, and \<open>fd[pi]\<close> is the reciprocal
  of \<open>P[pi]\<close>.
\<close>

definition epoch_primes_ok :: "Epoch \<Rightarrow> bool" where
  "epoch_primes_ok e =
     (let pc = unat (count_C (primes_C e)) in
      map (\<lambda>pi. unat (prime_at e pi)) [0..<pc] = filter is_prime [0..<Suc (unat (k_C e))]
      \<and> pc \<le> length (fd_C e)
      \<and> (\<forall>pi \<in> {0..<pc}. fd_C e ! pi = fastdiv_u32_make_prime (prime_at e pi)))"

text \<open>
  The carried offsets as the sieve expects them on entry: \<open>off[pi]\<close> is the least
  \<open>i \<ge> 0\<close> such that \<open>P[pi]\<close> divides \<open>base_test + i\<close>.
\<close>

definition offsets_ok :: "Epoch \<Rightarrow> u64 \<Rightarrow> u32 list \<Rightarrow> bool" where
  "offsets_ok e base_test off =
     (let pc = unat (count_C (primes_C e)) in
      pc \<le> length off
      \<and> (\<forall>pi \<in> {0..<pc}. unat (off ! pi) < unat (prime_at e pi)
            \<and> (unat base_test + unat (off ! pi)) mod unat (prime_at e pi) = 0))"

text \<open>
  The state of the residuals of a window based at b once the primes of the set S have been
  processed: every residual is a positive divisor of its value, no prime of S divides it,
  and every prime factor of the value is in S or still divides the residual.
\<close>

definition res_inv :: "nat \<Rightarrow> nat set \<Rightarrow> u64 list \<Rightarrow> nat \<Rightarrow> bool" where
  "res_inv b S res wl =
     (\<forall>j < wl. 0 < unat (res ! j) \<and> unat (res ! j) dvd (b + j)
        \<and> (\<forall>q \<in> S. \<not> q dvd unat (res ! j))
        \<and> (\<forall>q. is_prime q \<and> q dvd (b + j) \<longrightarrow> q \<in> S \<or> q dvd unat (res ! j)))"

text \<open>
  The loop over the multiples of p again, returning the values x it reads at line 343 (the
  values the stripping is performed on) in the order of the visits.
\<close>

partial_function (option) sieve_multiples_visited :: "u32 \<Rightarrow> FastDivU32 \<Rightarrow> u32 \<Rightarrow> u32 \<Rightarrow> u64 list \<Rightarrow> u64 list option" where
  "sieve_multiples_visited p f win_len i residual =
     (if i < win_len then do {
        x \<leftarrow> strip_prime p f (residual ! unat i);
        xs \<leftarrow> sieve_multiples_visited p f win_len (i + p) (residual[unat i := x]);
        Some (residual ! unat i # xs)
      }
      else Some [])"

declare sieve_multiples_visited.simps [code]

text \<open>An epoch for k = 3, one thread and tiles of 4 start positions, used in examples.\<close>

definition example_epoch :: Epoch where
  "example_epoch =
     \<lparr>k_C = 3, tile_len_C = 4, step_C = 4, start_m_C = 8, end_m_C = 15,
       primes_C = \<lparr>p_C = Some [2, 3], count_C = 2\<rparr>,
       fd_C = [\<lparr>d_C = 2, mul_C = 9223372036854775808\<rparr>, \<lparr>d_C = 3, mul_C = 6148914691236517205\<rparr>],
       step_mod_C = [0, 1], best_m_C = UINT64_MAX, end_limit_C = 15, active_workers_C = 1,
       evt_done_C = False\<rparr>"

section \<open>One epoch over a span\<close>

text \<open>
  The search over the span \<open>[start_m, end_m]\<close> on a fresh job system: \<open>main\<close> up to
  \<open>start_workers\<close> on a machine with as many logical processors as threads, then what
  \<open>find_m_for_k\<close> does for one batch (lines 511-524), with \<open>end_m\<close> given.
\<close>

definition epoch_search ::
  "(nat \<Rightarrow> bool) \<Rightarrow> (nat \<Rightarrow> nat) \<Rightarrow> u32 \<Rightarrow> u32 \<Rightarrow> u64 \<Rightarrow> u64 \<Rightarrow> u32 \<Rightarrow> u64 option" where
  "epoch_search alloc_ok sched threads k start_m end_m tile_len =
     (let e0 = \<lparr>k_C = 0, tile_len_C = 0, step_C = 0, start_m_C = 0, end_m_C = 0,
                 primes_C = \<lparr>p_C = None, count_C = 0\<rparr>, fd_C = [], step_mod_C = [],
                 best_m_C = 0, end_limit_C = 0, active_workers_C = 0, evt_done_C = False\<rparr>;
          js = \<lparr>thread_count_C = threads, epoch_C = e0\<rparr>
      in do {
           (js, ws) \<leftarrow> start_workers threads (unat threads) js;
           primes \<leftarrow> primes_upto alloc_ok k;
           let e = (epoch_C js)\<lparr>primes_C := primes\<rparr>;
           let e = e\<lparr>k_C := k, tile_len_C := tile_len,
                      step_C := ucast tile_len * ucast (thread_count_C js)\<rparr>;
           js \<leftarrow> epoch_prepare_math alloc_ok (js\<lparr>epoch_C := e\<rparr>);
           (best, js, q, ws, t) \<leftarrow>
             (case epoch_begin js 0 k start_m end_m tile_len of
                (js, q) \<Rightarrow> epoch_wait alloc_ok sched 0 js q ws);
           Some best
         })"


definition all_smooth_run :: "nat \<Rightarrow> nat \<Rightarrow> bool" where
  "all_smooth_run k m = (\<forall>j \<in> {1..k}. k_smooth k (m + j))"

section \<open>Fast division is exact\<close>

lemma unat_ucast_up64_128: "unat (ucast (a :: u64) :: u128) = unat a"
  by (simp add: unsigned_ucast_eq take_bit_nat_eq_self_iff)
     (rule less_trans[OF unsigned_less], simp)

lemma unat_ucast_up32_64: "unat (ucast (a :: u32) :: u64) = unat a"
  by (simp add: unsigned_ucast_eq take_bit_nat_eq_self_iff)
     (rule less_trans[OF unsigned_less], simp)

lemma unat_lt_2p32: "unat (a :: u32) < 2^32"
  using unsigned_less[of a] by simp

lemma unat_lt_2p64: "unat (a :: u64) < 2^64"
  using unsigned_less[of a] by simp

lemma make_prime_d: "d_C (fastdiv_u32_make_prime p) = p"
  by (simp add: fastdiv_u32_make_prime_def)

lemma make_prime_mul_two: "unat (mul_C (fastdiv_u32_make_prime 2)) = 2^63"
  by (simp add: fastdiv_u32_make_prime_def)

lemma unat_max_u64: "unat (- 1 :: u64) = 2^64 - 1"
  by (simp add: unsigned_minus_1_eq_mask mask_eq_exp_minus_1)

lemma zero_less_uint64_max: "(0 :: u64) < UINT64_MAX"
  by (simp add: word_less_nat_alt unat_max_u64)

lemma make_prime_mul_other:
  "p \<noteq> 2 \<Longrightarrow> unat (mul_C (fastdiv_u32_make_prime p)) = (2^64 - 1) div unat p"
  by (simp add: fastdiv_u32_make_prime_def unat_div unat_ucast_up32_64 unat_max_u64)

lemma odd_prime_not_dvd_2p64:
  assumes "is_prime q" "q \<noteq> 2"
  shows "\<not> q dvd 2 ^ n"
proof
  assume dv: "q dvd 2 ^ n"
  have q2: "2 \<le> q" using assms by (simp add: is_prime_def)
  have "\<not> 2 dvd q" using assms q2 by (auto simp: is_prime_def)
  hence "coprime q 2" by (simp add: coprime_right_2_iff_odd)
  hence "coprime q (2 ^ n)" by simp
  hence "q = 1" using dv by fastforce
  thus False using q2 by simp
qed

lemma div_pred_not_dvd:
  fixes N q :: nat
  assumes "\<not> q dvd N" "0 < q"
  shows "(N - 1) div q = N div q"
proof -
  have r: "0 < N mod q" using assms by (simp add: dvd_eq_mod_eq_0)
  have "N - 1 = (N div q) * q + (N mod q - 1)" using r by simp
  moreover have "N mod q - 1 < q" using assms(2) less_imp_diff_less by force
  ultimately show ?thesis by simp
qed

lemma fastdiv_recip_bounds:
  assumes "2 \<le> unat p"
  shows "unat (mul_C (fastdiv_u32_make_prime p)) * unat p \<le> 2^64"
    and "2^64 \<le> unat (mul_C (fastdiv_u32_make_prime p)) * unat p + unat p"
proof -
  show "unat (mul_C (fastdiv_u32_make_prime p)) * unat p \<le> 2^64"
  proof (cases "p = 2")
    case True thus ?thesis by (simp add: make_prime_mul_two)
  next
    case False
    have "unat (mul_C (fastdiv_u32_make_prime p)) * unat p = (2^64 - 1) div unat p * unat p"
      using False by (simp add: make_prime_mul_other)
    also have "\<dots> \<le> 2^64 - 1" by (rule div_times_less_eq_dividend)
    also have "\<dots> \<le> (2^64 :: nat)" by simp
    finally show ?thesis .
  qed
  show "2^64 \<le> unat (mul_C (fastdiv_u32_make_prime p)) * unat p + unat p"
  proof (cases "p = 2")
    case True thus ?thesis by (simp add: make_prime_mul_two)
  next
    case False
    have pos: "0 < unat p" using assms by simp
    have "(2^64 - 1 :: nat) < unat p + (2^64 - 1) div unat p * unat p"
      by (rule dividend_less_div_times[OF pos])
    hence "(2^64 :: nat) \<le> (2^64 - 1) div unat p * unat p + unat p" by simp
    moreover have "unat (mul_C (fastdiv_u32_make_prime p)) = (2^64 - 1) div unat p"
      using False by (rule make_prime_mul_other)
    ultimately show ?thesis by (simp only:)
  qed
qed

lemma unat_mulhi: "unat (mulhi_u64 a b) = (unat a * unat b) div 2^64"
proof -
  have a: "unat a < 2^64" and b: "unat b < 2^64"
    using unsigned_less[of a] unsigned_less[of b] by simp_all
  have "unat a * unat b < 2^64 * 2^64"
    using a b by (intro mult_strict_mono) simp_all
  hence ab: "unat a * unat b < 2^128" by simp
  hence q: "(unat a * unat b) div 2^64 < 2^64"
    by (simp add: less_mult_imp_div_less)
  have "unat ((ucast a :: u128) * ucast b) = unat a * unat b"
    using ab by (simp add: unat_word_ariths unat_ucast_up64_128)
  hence "unat (drop_bit 64 ((ucast a :: u128) * ucast b)) = (unat a * unat b) div 2^64"
    by (subst unat_drop_bit_eq) (simp add: drop_bit_eq_div)
  thus ?thesis using q
    unfolding mulhi_u64_def
    by (simp add: unsigned_ucast_eq take_bit_nat_eq_self_iff)
qed

lemma fastdiv_nat_upper:
  fixes n mu dv q0 :: nat
  assumes "mu * dv \<le> N" "q0 = (n * mu) div N" "0 < N"
  shows "q0 * dv \<le> n"
proof -
  have "q0 * N \<le> n * mu" using assms by simp
  hence "q0 * N * dv \<le> n * mu * dv" by simp
  also have "\<dots> \<le> n * N" using assms(1) by (simp add: mult.assoc)
  finally have "(q0 * dv) * N \<le> n * N" by (simp add: mult_ac)
  thus ?thesis using assms(3) by simp
qed

lemma fastdiv_nat_lower:
  fixes n mu dv q0 :: nat
  assumes mu: "N \<le> mu * dv + dv" and q0: "q0 = (n * mu) div N" and N: "0 < N" and n: "n < N"
    and dv: "0 < dv"
  shows "n < (q0 + 2) * dv"
proof -
  have "n * mu < (q0 + 1) * N"
    using q0 N by (metis Suc_eq_plus1 dividend_less_div_times mult.commute mult_Suc)
  hence "n * mu * dv < (q0 + 1) * N * dv" using dv by simp
  moreover have "n * N \<le> n * (mu * dv + dv)" using mu by simp
  hence "n * N \<le> n * mu * dv + n * dv" by (simp add: algebra_simps)
  moreover have "n * dv < N * dv" using n dv by simp
  ultimately have "n * N < (q0 + 1) * N * dv + N * dv" by linarith
  hence "n * N < ((q0 + 2) * dv) * N" by (simp add: algebra_simps)
  thus ?thesis by simp
qed

lemma fastdiv_correct_nat:
  assumes "unat rr = r" "unat q0 = q" "unat dd = dv" "q < 2^64 - 1"
  shows "fastdiv_correct dd (rr, q0) = (rr', q0') \<Longrightarrow>
     unat rr' = (if dv \<le> r then r - dv else r) \<and> unat q0' = (if dv \<le> r then q + 1 else q)"
  using assms
  by (auto simp: fastdiv_correct_def word_le_nat_alt unat_sub unat_word_ariths split: if_splits)

lemma fastdiv_u32_divmod_general:
  assumes dv: "2 \<le> unat (d_C fd)"
    and mu1: "unat (mul_C fd) * unat (d_C fd) \<le> 2^64"
    and mu2: "2^64 \<le> unat (mul_C fd) * unat (d_C fd) + unat (d_C fd)"
  shows "unat (fst (fastdiv_u32_divmod fd n)) = unat n div unat (d_C fd)
       \<and> unat (snd (fastdiv_u32_divmod fd n)) = unat n mod unat (d_C fd)"
proof -
  define dv where "dv = unat (d_C fd)"
  define mu where "mu = unat (mul_C fd)"
  define dd :: u64 where "dd = ucast (d_C fd)"
  define q0 where "q0 = mulhi_u64 n (mul_C fd)"
  define rr where "rr = n - q0 * dd"
  have n: "unat n < 2^64" by (rule unat_lt_2p64)
  have dv32: "dv < 2^32" unfolding dv_def by (rule unat_lt_2p32)
  have dd: "unat dd = dv" unfolding dd_def dv_def by (rule unat_ucast_up32_64)
  have q0: "unat q0 = (unat n * mu) div 2^64"
    unfolding q0_def mu_def by (rule unat_mulhi)
  have up: "unat q0 * dv \<le> unat n"
    using fastdiv_nat_upper[of mu dv "2^64" "unat q0" "unat n"] mu1 q0
    by (simp add: mu_def dv_def)
  have lo: "unat n < (unat q0 + 2) * dv"
    using fastdiv_nat_lower[of "2^64" mu dv "unat q0" "unat n"] mu2 q0 n dv
    by (simp add: mu_def dv_def)
  have dv2: "2 \<le> dv" using dv by (simp add: dv_def)
  have q0small: "unat q0 + 2 < 2^64 - 1"
  proof -
    have "unat q0 * 2 \<le> unat q0 * dv" using dv2 by simp
    hence "unat q0 * 2 < 2^64" using up n by linarith
    thus ?thesis by simp
  qed
  have prod: "unat (q0 * dd) = unat q0 * dv"
    using up n dd by (simp add: unat_word_ariths)
  have rr: "unat rr = unat n - unat q0 * dv"
    unfolding rr_def using prod up by (simp add: unat_sub word_le_nat_alt)
  obtain rr1 q1 where c1: "fastdiv_correct dd (rr, q0) = (rr1, q1)" by force
  obtain rr2 q2 where c2: "fastdiv_correct dd (rr1, q1) = (rr2, q2)" by force
  have s1: "unat rr1 = (if dv \<le> unat rr then unat rr - dv else unat rr)"
           "unat q1 = (if dv \<le> unat rr then unat q0 + 1 else unat q0)"
    using fastdiv_correct_nat[OF refl refl dd _ c1] q0small by simp_all
  have q1small: "unat q1 < 2^64 - 1" using s1 q0small by (simp split: if_splits)
  have s2: "unat rr2 = (if dv \<le> unat rr1 then unat rr1 - dv else unat rr1)"
           "unat q2 = (if dv \<le> unat rr1 then unat q1 + 1 else unat q1)"
    using fastdiv_correct_nat[OF refl refl dd q1small c2] by simp_all
  have lo': "unat rr < 2 * dv" using lo rr up by (simp add: algebra_simps)
  have r1lt: "unat rr1 < dv" using s1 lo' by (simp split: if_splits)
  have r2: "unat rr2 = unat rr1" "unat q2 = unat q1" using s2 r1lt by simp_all
  have sum: "unat q1 * dv + unat rr1 = unat n"
    using s1 rr up by (auto simp: algebra_simps split: if_splits)
  have qres: "unat q2 = unat n div dv"
    using sum r1lt r2 dv2
    by (metis add.commute div_mult_self1_is_m div_mult_self3 div_less add.right_neutral less_nat_zero_code neq0_conv)
  have rres: "unat rr2 = unat n mod dv"
    using sum r1lt r2
    by (metis mod_mult_self3 mod_less)
  have res: "fastdiv_u32_divmod fd n = (q2, ucast rr2)"
    unfolding fastdiv_u32_divmod_def Let_def
    using c1 c2 by (simp add: dd_def q0_def rr_def)
  have "unat (ucast rr2 :: u32) = unat rr2"
    using r1lt r2 dv32
    by (simp add: unsigned_ucast_eq take_bit_nat_eq_self_iff)
  thus ?thesis using res qres rres by (simp add: dv_def)
qed

text \<open>
  Claim C6.  For every prime p (a 32-bit value) and every 64-bit n, the reciprocal is
  \<open>2^63\<close> for p = 2 and \<open>floor (2^64 / p)\<close> otherwise, and the fast division (mulhi by the
  reciprocal and two conditional corrections) yields the true quotient and the true
  remainder; \<open>fastdiv_u32_mod\<close> is C's \<open>n % p\<close>.
\<close>

theorem fastdiv_u32_divmod_exact:
  assumes "is_prime (unat p)"
  shows "unat (mul_C (fastdiv_u32_make_prime p)) = (if p = 2 then 2^63 else 2^64 div unat p)
       \<and> unat (fst (fastdiv_u32_divmod (fastdiv_u32_make_prime p) n)) = unat n div unat p
       \<and> unat (snd (fastdiv_u32_divmod (fastdiv_u32_make_prime p) n)) = unat n mod unat p
       \<and> fastdiv_u32_divmod (fastdiv_u32_make_prime p) n = (n div ucast p, ucast (n mod ucast p))
       \<and> fastdiv_u32_mod (fastdiv_u32_make_prime p) n = ucast (n mod ucast p)"
proof -
  let ?fd = "fastdiv_u32_make_prime p"
  have p2: "2 \<le> unat p" using assms by (simp add: is_prime_def)
  have mu: "unat (mul_C ?fd) = (if p = 2 then 2^63 else 2^64 div unat p)"
  proof (cases "p = 2")
    case True thus ?thesis by (simp add: make_prime_mul_two)
  next
    case False
    hence "unat p \<noteq> 2" by (simp add: word_unat_eq_iff)
    hence "\<not> unat p dvd 2 ^ 64" using assms by (rule odd_prime_not_dvd_2p64[rotated])
    hence "(2^64 - 1) div unat p = 2^64 div unat p"
      using p2 by (intro div_pred_not_dvd) simp_all
    thus ?thesis using False by (simp add: make_prime_mul_other)
  qed
  have dm: "unat (fst (fastdiv_u32_divmod ?fd n)) = unat n div unat p
          \<and> unat (snd (fastdiv_u32_divmod ?fd n)) = unat n mod unat p"
    using fastdiv_u32_divmod_general[of ?fd n] fastdiv_recip_bounds[OF p2] p2
    by (simp add: make_prime_d)
  have q: "fst (fastdiv_u32_divmod ?fd n) = n div ucast p"
    using dm by (simp add: word_unat_eq_iff unat_div unat_ucast_up32_64)
  have "unat n mod unat p < unat p" using p2 by simp
  hence "unat n mod unat p < 2^32"
    using unat_lt_2p32[of p] by (rule less_trans)
  moreover have "unat (n mod ucast p) = unat n mod unat p"
    by (simp add: unat_mod unat_ucast_up32_64)
  moreover have "unat (ucast (n mod ucast p) :: u32) = take_bit 32 (unat (n mod ucast p))"
    by (simp add: unsigned_ucast_eq)
  ultimately have "unat (ucast (n mod ucast p) :: u32) = unat n mod unat p"
    by (simp add: take_bit_nat_eq_self_iff)
  hence r: "snd (fastdiv_u32_divmod ?fd n) = ucast (n mod ucast p)"
    using dm by (simp add: word_unat_eq_iff)
  show ?thesis using mu dm q r
    by (simp add: fastdiv_u32_mod_def prod_eq_iff)
qed

theorem fastdiv_u32_divmod_exact_witness:
  "is_prime (unat (7 :: u32))
   \<and> unat (mul_C (fastdiv_u32_make_prime 7)) = 2^64 div 7
   \<and> fastdiv_u32_divmod (fastdiv_u32_make_prime 7) 100 = (14, 2)
   \<and> fastdiv_u32_mod (fastdiv_u32_make_prime 7) 100 = 2"
proof -
  have h: "is_prime (unat (7 :: u32))" by code_simp
  show ?thesis using h fastdiv_u32_divmod_exact[OF h, of 100] by simp
qed

section \<open>try_set_best never raises the end limit\<close>

lemma try_set_best_step_end_limit:
  "tsb_pc_ok pc \<Longrightarrow> tsb_pc_ok (fst (try_set_best_step m pc e))
     \<and> end_limit_C (snd (try_set_best_step m pc e)) \<le> end_limit_C e"
  by (cases pc) (auto simp: Let_def load_u64_def InterlockedCompareExchange64_def)

lemma try_set_best_run_seq:
  "try_set_best_run m TSB_load_best e =
     Some (if m \<ge> best_m_C e then e
           else e\<lparr>best_m_C := m,
                  end_limit_C := min (end_limit_C e) (if m = 0 then 0 else m - 1)\<rparr>)"
proof (cases "m \<ge> best_m_C e")
  case True
  thus ?thesis
    by (simp add: try_set_best_run.simps[of m TSB_load_best] try_set_best_run.simps[of m TSB_return] load_u64_def)
next
  case False
  define nl where "nl = (if m = 0 then 0 else m - 1)"
  define e1 where "e1 = e\<lparr>best_m_C := m\<rparr>"
  have s1: "try_set_best_run m TSB_load_best e = try_set_best_run m (TSB_cas_best (best_m_C e)) e"
    using False by (simp add: try_set_best_run.simps[of m TSB_load_best] load_u64_def)
  have s2: "try_set_best_run m (TSB_cas_best (best_m_C e)) e = try_set_best_run m (TSB_load_lim nl) e1"
    by (simp add: try_set_best_run.simps[of m "TSB_cas_best (best_m_C e)"] InterlockedCompareExchange64_def
        nl_def e1_def Let_def)
  show ?thesis
  proof (cases "nl \<ge> end_limit_C e")
    case True
    have "try_set_best_run m (TSB_load_lim nl) e1 = Some e1"
      using True by (simp add: try_set_best_run.simps[of m "TSB_load_lim nl"]
          try_set_best_run.simps[of m TSB_return] load_u64_def e1_def)
    moreover have "min (end_limit_C e) nl = end_limit_C e" using True by (simp add: min_def)
    ultimately show ?thesis using s1 s2 False by (simp add: e1_def nl_def)
  next
    case nlt: False
    have "try_set_best_run m (TSB_load_lim nl) e1 = try_set_best_run m (TSB_cas_lim nl (end_limit_C e)) e1"
      using nlt by (simp add: try_set_best_run.simps[of m "TSB_load_lim nl"] load_u64_def e1_def)
    also have "\<dots> = Some (e1\<lparr>end_limit_C := nl\<rparr>)"
      by (simp add: try_set_best_run.simps[of m "TSB_cas_lim nl (end_limit_C e)"]
          try_set_best_run.simps[of m TSB_return] InterlockedCompareExchange64_def e1_def)
    finally have "try_set_best_run m (TSB_load_lim nl) e1 = Some (e1\<lparr>end_limit_C := nl\<rparr>)" .
    moreover have "min (end_limit_C e) nl = nl" using nlt by (simp add: min_def)
    ultimately show ?thesis using s1 s2 False by (simp add: e1_def nl_def)
  qed
qed

text \<open>
  Claim C10.  For every m and every state of the atomics, \<open>try_set_best\<close> returns, and
  \<open>end_limit\<close> on return is at most its previous value; \<open>best_m\<close> becomes the minimum of
  its previous value and m; when m improves \<open>best_m\<close>, \<open>end_limit\<close> becomes the minimum of
  its previous value and \<open>m - 1\<close>, with 0 in place of \<open>0 - 1\<close> for m = 0.  Moreover no
  single access of \<open>try_set_best\<close> to the atomics raises \<open>end_limit\<close>, whatever the other
  threads have done to them in between.
\<close>

theorem try_set_best_never_raises_end_limit:
  "\<exists>js'. try_set_best js m = Some js'
     \<and> end_limit_C (epoch_C js') \<le> end_limit_C (epoch_C js)
     \<and> best_m_C (epoch_C js') = min (best_m_C (epoch_C js)) m
     \<and> (m < best_m_C (epoch_C js) \<longrightarrow>
          end_limit_C (epoch_C js') = min (end_limit_C (epoch_C js)) (if m = 0 then 0 else m - 1))
     \<and> (m < best_m_C (epoch_C js) \<and> m = 0 \<longrightarrow> end_limit_C (epoch_C js') = 0)
     \<and> (\<forall>pc e. tsb_pc_ok pc \<longrightarrow> tsb_pc_ok (fst (try_set_best_step m pc e))
           \<and> end_limit_C (snd (try_set_best_step m pc e)) \<le> end_limit_C e)"
  using try_set_best_step_end_limit[of _ m]
  by (auto simp: try_set_best_def try_set_best_run_seq min_def)

theorem try_set_best_never_raises_end_limit_witness:
  "(0 :: u64) < best_m_C (epoch_C
      \<lparr>thread_count_C = 1, epoch_C = \<lparr>k_C = 1, tile_len_C = 4, step_C = 4, start_m_C = 0,
         end_m_C = 7, primes_C = \<lparr>p_C = None, count_C = 0\<rparr>, fd_C = [], step_mod_C = [],
         best_m_C = UINT64_MAX, end_limit_C = 7, active_workers_C = 1, evt_done_C = False\<rparr>\<rparr>)
   \<and> (\<exists>js'. try_set_best
      \<lparr>thread_count_C = 1, epoch_C = \<lparr>k_C = 1, tile_len_C = 4, step_C = 4, start_m_C = 0,
         end_m_C = 7, primes_C = \<lparr>p_C = None, count_C = 0\<rparr>, fd_C = [], step_mod_C = [],
         best_m_C = UINT64_MAX, end_limit_C = 7, active_workers_C = 1, evt_done_C = False\<rparr>\<rparr> 0
        = Some js' \<and> best_m_C (epoch_C js') = 0 \<and> end_limit_C (epoch_C js') = 0)"
  using try_set_best_never_raises_end_limit[of
      "\<lparr>thread_count_C = 1, epoch_C = \<lparr>k_C = 1, tile_len_C = 4, step_C = 4, start_m_C = 0,
         end_m_C = 7, primes_C = \<lparr>p_C = None, count_C = 0\<rparr>, fd_C = [], step_mod_C = [],
         best_m_C = UINT64_MAX, end_limit_C = 7, active_workers_C = 1, evt_done_C = False\<rparr>\<rparr>" 0]
    zero_less_uint64_max
  by auto

section \<open>The window scan\<close>

lemma unat_of_nat_u32: "j < 2^32 \<Longrightarrow> unat (of_nat j :: u32) = j"
  by (simp add: unat_of_nat)

lemma u32_byte_index: "j < 2^32 \<Longrightarrow> unat (drop_bit 3 (of_nat j :: u32)) = j div 8"
  by (simp add: drop_bit_eq_div unat_div unat_of_nat_u32)

lemma u32_and_7: "(x :: u32) AND 7 = take_bit 3 x"
proof -
  have "(7 :: u32) = mask 3" by (simp add: mask_eq_exp_minus_1)
  thus ?thesis by (simp add: take_bit_eq_mask)
qed

lemma u32_bit_index: "j < 2^32 \<Longrightarrow> unat ((of_nat j :: u32) AND 7) = j mod 8"
  by (simp add: u32_and_7 take_bit_eq_mod unat_mod unat_of_nat_u32)

lemma bitset_get_bit_at:
  assumes "j < 2^32"
  shows "bitset_get bits (of_nat j) = of_bool (bit_at bits j)"
proof -
  have "odd (ucast (drop_bit (j mod 8) (bits ! (j div 8))) :: u32) = bit (bits ! (j div 8)) (j mod 8)"
    by (simp add: bit_0[symmetric] bit_ucast_iff bit_drop_bit_eq)
  thus ?thesis
    using assms by (simp add: bitset_get_def u32_byte_index u32_bit_index and_one_eq mod_2_eq_odd bit_at_def)
qed

lemma bitset_set_bit_at:
  assumes "j < 2^32" "j div 8 < length bits"
  shows "bit_at (bitset_set bits (of_nat j)) i = (i = j \<or> bit_at bits i)"
proof -
  have pb: "n < 8 \<Longrightarrow> bit (ucast (2 ^ (j mod 8) :: u32) :: u8) n = (n = j mod 8)" for n
    by (auto simp: bit_ucast_iff bit_exp_iff)
  have ij: "i = j \<longleftrightarrow> i div 8 = j div 8 \<and> i mod 8 = j mod 8"
    by (metis div_mult_mod_eq)
  show ?thesis
    using assms
    by (auto simp: bit_at_def bitset_set_def u32_byte_index u32_bit_index nth_list_update bit_or_iff pb ij)
qed

lemma bitset_set_length: "length (bitset_set bits i) = length bits"
  by (simp add: bitset_set_def)

lemma bitset_clear_bit_at:
  assumes "unat n + 7 < 2^32" "i < unat n"
  shows "\<not> bit_at (bitset_clear bits n) i"
proof -
  have "unat (n + 7) = unat n + 7" using assms(1) by (simp add: unat_word_ariths)
  hence nb: "unat (drop_bit 3 (n + 7)) = (unat n + 7) div 8"
    by (simp add: drop_bit_eq_div unat_div)
  have "i div 8 < (unat n + 7) div 8" using assms(2) by linarith
  thus ?thesis
    by (simp add: bit_at_def bitset_clear_def Let_def nb nth_append)
qed

lemma bitset_clear_length:
  "unat (drop_bit 3 (n + 7)) \<le> length bits \<Longrightarrow> length (bitset_clear bits n) = length bits"
  by (simp add: bitset_clear_def Let_def)

lemma wcount_0: "wcount bits s 0 = 0"
  by (simp add: wcount_def)

lemma wcount_Suc: "wcount bits s (Suc k) = wcount bits s k + (if bit_at bits (s + k) then 1 else 0)"
  by (simp add: wcount_def)

lemma wcount_le: "wcount bits s k \<le> k"
  unfolding wcount_def by (rule le_trans[OF length_filter_le]) simp

lemma wcount_slide:
  "wcount bits (Suc s) k + (if bit_at bits s then 1 else 0)
     = wcount bits s k + (if bit_at bits (s + k) then 1 else 0)"
proof -
  have "[s..<s + Suc k] = s # [Suc s..<Suc s + k]"
    by (simp add: upt_conv_Cons del: upt_Suc)
  hence "wcount bits s (Suc k) = wcount bits (Suc s) k + (if bit_at bits s then 1 else 0)"
    by (simp add: wcount_def del: upt_Suc)
  thus ?thesis by (simp only: wcount_Suc)
qed

lemma wcount_zero_iff: "wcount bits s k = 0 \<longleftrightarrow> window_all_clear bits k s"
  by (auto simp: wcount_def window_all_clear_def filter_empty_conv)

lemma length_filter_full: "length (filter P xs) = length xs \<longleftrightarrow> (\<forall>x \<in> set xs. P x)"
proof -
  have "length (filter P xs) + length (filter (\<lambda>x. \<not> P x) xs) = length xs"
    by (rule sum_length_filter_compl)
  hence "length (filter P xs) = length xs \<longleftrightarrow> filter (\<lambda>x. \<not> P x) xs = []" by auto
  thus ?thesis by (simp add: filter_empty_conv)
qed

lemma wcount_full_iff: "wcount bits s k = k \<longleftrightarrow> window_all_set bits k s"
  using length_filter_full[of "bit_at bits" "[s..<s + k]"]
  by (simp add: wcount_def window_all_set_def)

lemma of_nat_u32_eq_0: "n < 2^32 \<Longrightarrow> (of_nat n :: u32) = 0 \<longleftrightarrow> n = 0"
  using unat_of_nat_u32[of n] by (auto simp: word_unat_eq_iff)

lemma count_fold:
  assumes "n \<le> 2^32"
  shows "fold (\<lambda>i bad. bad + bitset_get bits (of_nat i)) [0..<n] (0 :: u32) = of_nat (wcount bits 0 n)"
  using assms
proof (induction n)
  case 0
  show ?case by (simp add: wcount_0)
next
  case (Suc n)
  hence "n < 2^32" by simp
  thus ?case using Suc by (simp add: wcount_Suc bitset_get_bit_at)
qed

lemma scan_windows_least:
  fixes k :: u32
  assumes "bad = of_nat (wcount bits (s0 - 1) (unat k))" "1 \<le> s0" "sc + unat k \<le> 2^32"
  shows "scan_windows bits k m0 bad [s0..<sc] =
     (if \<exists>s. s0 \<le> s \<and> s < sc \<and> wcount bits s (unat k) = 0
      then m0 + of_nat (LEAST s. s0 \<le> s \<and> wcount bits s (unat k) = 0)
      else UINT64_MAX)"
  using assms
proof (induction "sc - s0" arbitrary: s0 bad)
  case 0
  thus ?case by auto
next
  case (Suc n)
  hence lt: "s0 < sc" by simp
  hence up: "[s0..<sc] = s0 # [Suc s0..<sc]" by (simp add: upt_conv_Cons)
  obtain p where p: "s0 = Suc p" using Suc.prems(2) by (cases s0) simp_all
  have s0b: "s0 < 2^32" "p < 2^32" "s0 + unat k - 1 < 2^32"
    using lt Suc.prems(3) p by simp_all
  have i1: "(of_nat s0 :: u32) - 1 = of_nat p" by (simp add: p)
  have i2: "(of_nat s0 :: u32) + k - 1 = of_nat (p + unat k)" by (simp add: p)
  have g1: "bitset_get bits (of_nat s0 - 1) = of_bool (bit_at bits p)"
    unfolding i1 using s0b(2) by (rule bitset_get_bit_at)
  have g2: "bitset_get bits (of_nat s0 + k - 1) = of_bool (bit_at bits (p + unat k))"
    unfolding i2 using s0b(3) p by (intro bitset_get_bit_at) simp
  define bad' where "bad' = bad - bitset_get bits (of_nat s0 - 1) + bitset_get bits (of_nat s0 + k - 1)"
  have "of_nat (wcount bits s0 (unat k)) + (of_nat (if bit_at bits p then 1 else 0) :: u32)
      = of_nat (wcount bits p (unat k)) + of_nat (if bit_at bits (p + unat k) then 1 else 0)"
    using wcount_slide[of bits p "unat k"] p by (simp only: of_nat_add[symmetric])
  hence "of_nat (wcount bits s0 (unat k)) + (of_bool (bit_at bits p) :: u32)
      = bad + of_bool (bit_at bits (p + unat k))"
    using Suc.prems(1) p by (simp split: if_splits)
  hence bad': "bad' = of_nat (wcount bits s0 (unat k))"
    unfolding bad'_def g1 g2 by (simp add: algebra_simps)
  have wlt: "wcount bits s0 (unat k) < 2^32"
    by (rule le_less_trans[OF wcount_le]) (rule unat_lt_2p32)
  have z: "bad' = 0 \<longleftrightarrow> wcount bits s0 (unat k) = 0"
    using wlt by (simp add: bad' of_nat_u32_eq_0)
  show ?case
  proof (cases "wcount bits s0 (unat k) = 0")
    case True
    have "(LEAST s. s0 \<le> s \<and> wcount bits s (unat k) = 0) = s0"
      using True by (intro Least_equality) simp_all
    moreover have "\<exists>s. s0 \<le> s \<and> s < sc \<and> wcount bits s (unat k) = 0"
      using True lt by blast
    ultimately show ?thesis
      using True z by (simp add: up bad'_def Let_def del: upt_Suc)
  next
    case False
    have n: "n = sc - Suc s0" using Suc.hyps(2) by simp
    have ih: "scan_windows bits k m0 bad' [Suc s0..<sc] =
     (if \<exists>s. Suc s0 \<le> s \<and> s < sc \<and> wcount bits s (unat k) = 0
      then m0 + of_nat (LEAST s. Suc s0 \<le> s \<and> wcount bits s (unat k) = 0)
      else UINT64_MAX)"
      using Suc.hyps(1)[OF n, of bad'] bad' Suc.prems(3) by simp
    have eq: "(s0 \<le> s \<and> wcount bits s (unat k) = 0) = (Suc s0 \<le> s \<and> wcount bits s (unat k) = 0)" for s
      using False by (cases "s = s0") auto
    have ex: "(\<exists>s. s0 \<le> s \<and> s < sc \<and> wcount bits s (unat k) = 0)
            = (\<exists>s. Suc s0 \<le> s \<and> s < sc \<and> wcount bits s (unat k) = 0)"
      using eq by blast
    have least: "(LEAST s. s0 \<le> s \<and> wcount bits s (unat k) = 0)
            = (LEAST s. Suc s0 \<le> s \<and> wcount bits s (unat k) = 0)"
      by (simp only: eq)
    have "scan_windows bits k m0 bad [s0..<sc] = scan_windows bits k m0 bad' [Suc s0..<sc]"
      using False z by (simp add: up bad'_def Let_def del: upt_Suc)
    thus ?thesis unfolding ih ex least .
  qed
qed

lemma window_scan_least_clear:
  assumes "1 \<le> unat sc" "unat sc + unat k \<le> 2^32"
  shows "window_scan bits k m0 sc =
     (if \<exists>s < unat sc. window_all_clear bits (unat k) s
      then m0 + of_nat (LEAST s. window_all_clear bits (unat k) s)
      else UINT64_MAX)"
proof -
  have k32: "unat k \<le> 2^32" using unat_lt_2p32[of k] by simp
  have bad0: "fold (\<lambda>i bad. bad + bitset_get bits (of_nat i)) [0..<unat k] (0 :: u32)
              = of_nat (wcount bits 0 (unat k))"
    by (rule count_fold[OF k32])
  have wlt: "wcount bits 0 (unat k) < 2^32"
    by (rule le_less_trans[OF wcount_le]) (rule unat_lt_2p32)
  show ?thesis
  proof (cases "wcount bits 0 (unat k) = 0")
    case True
    hence c0: "window_all_clear bits (unat k) 0" by (simp add: wcount_zero_iff)
    hence "(LEAST s. window_all_clear bits (unat k) s) = 0" by (intro Least_equality) simp_all
    moreover have "\<exists>s < unat sc. window_all_clear bits (unat k) s"
      using c0 assms(1) by (intro exI[of _ 0]) simp
    ultimately show ?thesis using True by (simp add: window_scan_def bad0)
  next
    case False
    hence nz: "(of_nat (wcount bits 0 (unat k)) :: u32) \<noteq> 0"
      using wlt by (simp add: of_nat_u32_eq_0)
    have eq: "(1 \<le> s \<and> wcount bits s (unat k) = 0) = window_all_clear bits (unat k) s" for s
      using False by (cases "s = 0") (auto simp: wcount_zero_iff)
    have ex: "(\<exists>s. 1 \<le> s \<and> s < unat sc \<and> wcount bits s (unat k) = 0)
            = (\<exists>s < unat sc. window_all_clear bits (unat k) s)"
      using eq by blast
    have least: "(LEAST s. 1 \<le> s \<and> wcount bits s (unat k) = 0)
            = (LEAST s. window_all_clear bits (unat k) s)"
      by (simp only: eq)
    have "window_scan bits k m0 sc
          = scan_windows bits k m0 (of_nat (wcount bits 0 (unat k))) [1..<unat sc]"
      using nz by (simp add: window_scan_def bad0)
    also have "\<dots> = (if \<exists>s. 1 \<le> s \<and> s < unat sc \<and> wcount bits s (unat k) = 0
      then m0 + of_nat (LEAST s. 1 \<le> s \<and> wcount bits s (unat k) = 0)
      else UINT64_MAX)"
      by (rule scan_windows_least) (use assms in simp_all)
    finally show ?thesis unfolding ex least .
  qed
qed

lemma scan_windows_normalized_least:
  assumes "count = wcount bits (s0 - 1) k" "1 \<le> s0"
  shows "scan_windows_normalized bits k count [s0..<sc] =
     (if \<exists>s. s0 \<le> s \<and> s < sc \<and> wcount bits s k = k
      then Some (LEAST s. s0 \<le> s \<and> wcount bits s k = k)
      else None)"
  using assms
proof (induction "sc - s0" arbitrary: s0 count)
  case 0
  thus ?case by auto
next
  case (Suc n)
  hence lt: "s0 < sc" by simp
  hence up: "[s0..<sc] = s0 # [Suc s0..<sc]" by (simp add: upt_conv_Cons)
  obtain p where p: "s0 = Suc p" using Suc.prems(2) by (cases s0) simp_all
  define count' where "count' = count + (if bit_at bits (s0 + k - 1) then 1 else 0)
       - (if bit_at bits (s0 - 1) then 1 else 0)"
  have count': "count' = wcount bits s0 k"
    using wcount_slide[of bits p k] p Suc.prems(1) by (simp add: count'_def split: if_splits)
  show ?case
  proof (cases "wcount bits s0 k = k")
    case True
    have "(LEAST s. s0 \<le> s \<and> wcount bits s k = k) = s0"
      using True by (intro Least_equality) simp_all
    moreover have "\<exists>s. s0 \<le> s \<and> s < sc \<and> wcount bits s k = k"
      using True lt by blast
    ultimately show ?thesis
      using True count' by (simp add: up count'_def Let_def del: upt_Suc)
  next
    case False
    have n: "n = sc - Suc s0" using Suc.hyps(2) by simp
    have ih: "scan_windows_normalized bits k count' [Suc s0..<sc] =
     (if \<exists>s. Suc s0 \<le> s \<and> s < sc \<and> wcount bits s k = k
      then Some (LEAST s. Suc s0 \<le> s \<and> wcount bits s k = k)
      else None)"
      using Suc.hyps(1)[OF n, of count'] count' by simp
    have eq: "(s0 \<le> s \<and> wcount bits s k = k) = (Suc s0 \<le> s \<and> wcount bits s k = k)" for s
      using False by (cases "s = s0") auto
    have ex: "(\<exists>s. s0 \<le> s \<and> s < sc \<and> wcount bits s k = k)
            = (\<exists>s. Suc s0 \<le> s \<and> s < sc \<and> wcount bits s k = k)"
      using eq by blast
    have least: "(LEAST s. s0 \<le> s \<and> wcount bits s k = k)
            = (LEAST s. Suc s0 \<le> s \<and> wcount bits s k = k)"
      by (simp only: eq)
    have "scan_windows_normalized bits k count [s0..<sc] = scan_windows_normalized bits k count' [Suc s0..<sc]"
      using False count' by (simp add: up count'_def Let_def del: upt_Suc)
    thus ?thesis unfolding ih ex least .
  qed
qed

lemma window_scan_normalized_least_set:
  assumes "1 \<le> sc"
  shows "window_scan_normalized bits k sc =
     (if \<exists>s < sc. window_all_set bits k s
      then Some (LEAST s. window_all_set bits k s)
      else None)"
proof (cases "wcount bits 0 k = k")
  case True
  hence c0: "window_all_set bits k 0" by (simp add: wcount_full_iff)
  hence "(LEAST s. window_all_set bits k s) = 0" by (intro Least_equality) simp_all
  moreover have "\<exists>s < sc. window_all_set bits k s"
    using c0 assms(1) by (intro exI[of _ 0]) simp
  ultimately show ?thesis using True by (simp add: window_scan_normalized_def wcount_def)
next
  case False
  have eq: "(1 \<le> s \<and> wcount bits s k = k) = window_all_set bits k s" for s
    using False by (cases "s = 0") (auto simp: wcount_full_iff)
  have ex: "(\<exists>s. 1 \<le> s \<and> s < sc \<and> wcount bits s k = k) = (\<exists>s < sc. window_all_set bits k s)"
    using eq by blast
  have least: "(LEAST s. 1 \<le> s \<and> wcount bits s k = k) = (LEAST s. window_all_set bits k s)"
    by (simp only: eq)
  have "window_scan_normalized bits k sc = scan_windows_normalized bits k (wcount bits 0 k) [1..<sc]"
    using False by (simp add: window_scan_normalized_def wcount_def)
  also have "\<dots> = (if \<exists>s. 1 \<le> s \<and> s < sc \<and> wcount bits s k = k
      then Some (LEAST s. 1 \<le> s \<and> wcount bits s k = k) else None)"
    by (rule scan_windows_normalized_least) simp_all
  finally show ?thesis unfolding ex least .
qed

lemma bit_at_complement:
  "i div 8 < length bits \<Longrightarrow> bit_at (map NOT bits) i = (\<not> bit_at bits i)"
  by (simp add: bit_at_def bit_not_iff)

lemma window_all_set_complement:
  assumes "s + k \<le> 8 * length bits"
  shows "window_all_set (map NOT bits) k s = window_all_clear bits k s"
proof -
  have "i div 8 < length bits" if "i < s + k" for i using that assms by linarith
  thus ?thesis by (auto simp: window_all_set_def window_all_clear_def bit_at_complement)
qed

text \<open>
  Claim C3, as stated, fails: the scan of the source takes a window for a hit when its
  running count is 0, not k.  With the single bit 0 set and k = 1 the window at s = 0 has
  all its bits set and the scan returns the sentinel; with no bit set it returns \<open>m0\<close>.
\<close>

theorem window_scan_all_set_counterexample:
  "window_all_set [1] 1 0 \<and> window_scan [1] 1 0 1 = UINT64_MAX
   \<and> \<not> window_all_set [0] 1 0 \<and> window_scan [0] 1 5 1 = 5"
  by code_simp

text \<open>
  Claim C3, amended.  For every \<open>bad_bits\<close>, every k and every \<open>start_count\<close> of at least 1
  with \<open>start_count + k\<close> within 32 bits, the window scan returns \<open>m0 + s\<close> for the smallest
  s in \<open>[0, start_count)\<close> such that the k bits \<open>bad_bits[s..s+k)\<close> are all clear (the
  running count of the window is 0), and the sentinel \<open>UINT64_MAX\<close> when there is no such s.
\<close>

theorem window_scan_first_clear_window:
  assumes "1 \<le> unat start_count" "unat start_count + unat k \<le> 2^32"
  shows "window_scan bad_bits k m0 start_count =
     (if \<exists>s < unat start_count. window_all_clear bad_bits (unat k) s
      then m0 + of_nat (LEAST s. window_all_clear bad_bits (unat k) s)
      else UINT64_MAX)"
  using assms by (rule window_scan_least_clear)

theorem window_scan_first_clear_window_witness:
  "1 \<le> unat (4 :: u32) \<and> unat (4 :: u32) + unat (2 :: u32) \<le> 2^32
   \<and> window_scan [9, 0, 0] 2 10 4 =
     (if \<exists>s < unat (4 :: u32). window_all_clear [9, 0, 0] (unat (2 :: u32)) s
      then 10 + of_nat (LEAST s. window_all_clear [9, 0, 0] (unat (2 :: u32)) s)
      else UINT64_MAX)
   \<and> window_scan [9, 0, 0] 2 10 4 = 11"
proof -
  have h: "1 \<le> unat (4 :: u32)" "unat (4 :: u32) + unat (2 :: u32) \<le> 2^32" by simp_all
  have v: "window_scan [9, 0, 0] 2 10 4 = 11" by code_simp
  show ?thesis using h v window_scan_first_clear_window[OF h, of "[9, 0, 0]" 10] by simp
qed

text \<open>
  Claim C4, as stated, fails: on the same bits the two conventions disagree.  For k = 1
  and the tile at \<open>m0 = 0\<close> with one start position the sieve sets the bit of the value 1
  (which is 1-smooth); the scan of the source (hit: count 0) returns no m, the normalized
  scan (hit: count k) returns s = 0.
\<close>

theorem window_scan_conventions_counterexample:
  "sieve_window_bad_bits_carried_fastdiv
      \<lparr>k_C = 1, tile_len_C = 1, step_C = 1, start_m_C = 0, end_m_C = 0,
        primes_C = \<lparr>p_C = None, count_C = 0\<rparr>, fd_C = [], step_mod_C = [],
        best_m_C = UINT64_MAX, end_limit_C = 0, active_workers_C = 1, evt_done_C = False\<rparr>
      1 1 [] [0, 0] [0] = Some ([], [1, 2], [1])
   \<and> window_scan [1] 1 0 1 = UINT64_MAX
   \<and> window_scan_normalized [1] 1 1 = Some 0"
  by code_simp

text \<open>
  Claim C4, amended.  The scan of the source (hit: the count of the window is 0) returns
  \<open>m0 + s\<close> exactly when the normalized scan (hit: the count is k) returns s on the
  complemented bits, and the sentinel when that one returns none: the two agree once the
  normalized convention sets the bit at the positions that are not smooth.
\<close>

theorem window_scan_normalized_on_complement:
  assumes "1 \<le> unat start_count" "unat start_count + unat k \<le> 2^32"
    and "unat start_count + unat k \<le> 8 * length bad_bits"
  shows "window_scan bad_bits k m0 start_count =
     (case window_scan_normalized (map NOT bad_bits) (unat k) (unat start_count) of
        Some s \<Rightarrow> m0 + of_nat s
      | None \<Rightarrow> UINT64_MAX)"
proof -
  have eq: "s < unat start_count \<Longrightarrow>
      window_all_set (map NOT bad_bits) (unat k) s = window_all_clear bad_bits (unat k) s" for s
    using assms(3) by (intro window_all_set_complement) simp
  have ex: "(\<exists>s < unat start_count. window_all_set (map NOT bad_bits) (unat k) s)
          = (\<exists>s < unat start_count. window_all_clear bad_bits (unat k) s)"
    using eq by blast
  show ?thesis
  proof (cases "\<exists>s < unat start_count. window_all_clear bad_bits (unat k) s")
    case False
    hence nex: "(\<exists>s < unat start_count. window_all_clear bad_bits (unat k) s) = False" by blast
    show ?thesis
      unfolding window_scan_least_clear[OF assms(1,2)]
        window_scan_normalized_least_set[OF assms(1)] ex nex
      by simp
  next
    case True
    then obtain s where s: "s < unat start_count" "window_all_clear bad_bits (unat k) s" by blast
    define l where "l = (LEAST s. window_all_clear bad_bits (unat k) s)"
    have lc: "window_all_clear bad_bits (unat k) l" unfolding l_def using s(2) by (rule LeastI)
    have ll: "l \<le> s" unfolding l_def using s(2) by (rule Least_le)
    hence lsc: "l < unat start_count" using s(1) by simp
    have "(LEAST s. window_all_set (map NOT bad_bits) (unat k) s) = l"
    proof (rule Least_equality)
      show "window_all_set (map NOT bad_bits) (unat k) l" using lc lsc by (simp add: eq)
    next
      fix y assume y: "window_all_set (map NOT bad_bits) (unat k) y"
      show "l \<le> y"
      proof (cases "y < unat start_count")
        case True
        hence "window_all_clear bad_bits (unat k) y" using y by (simp add: eq)
        thus ?thesis unfolding l_def by (rule Least_le)
      next
        case False
        thus ?thesis using lsc by simp
      qed
    qed
    hence least: "(LEAST s. window_all_set (map NOT bad_bits) (unat k) s)
        = (LEAST s. window_all_clear bad_bits (unat k) s)" by (simp add: l_def)
    have yex: "(\<exists>s < unat start_count. window_all_clear bad_bits (unat k) s) = True"
      using True by blast
    show ?thesis
      unfolding window_scan_least_clear[OF assms(1,2)]
        window_scan_normalized_least_set[OF assms(1)] ex least yex
      by simp
  qed
qed

theorem window_scan_normalized_on_complement_witness:
  "1 \<le> unat (4 :: u32) \<and> unat (4 :: u32) + unat (2 :: u32) \<le> 2^32
   \<and> unat (4 :: u32) + unat (2 :: u32) \<le> 8 * length [9, 0, 0 :: u8]
   \<and> window_scan [9, 0, 0] 2 10 4 =
     (case window_scan_normalized (map NOT [9, 0, 0]) (unat (2 :: u32)) (unat (4 :: u32)) of
        Some s \<Rightarrow> 10 + of_nat s
      | None \<Rightarrow> UINT64_MAX)
   \<and> window_scan_normalized (map NOT [9, 0, 0]) 2 4 = Some 1"
proof -
  have h: "1 \<le> unat (4 :: u32)" "unat (4 :: u32) + unat (2 :: u32) \<le> 2^32"
    "unat (4 :: u32) + unat (2 :: u32) \<le> 8 * length [9, 0, 0 :: u8]" by simp_all
  have v: "window_scan_normalized (map NOT [9, 0, 0]) 2 4 = Some 1" by code_simp
  show ?thesis
    using h v window_scan_normalized_on_complement[OF h, of 10] by simp
qed

section \<open>The carried offsets\<close>

lemma carry_offset_correct:
  fixes p sm off_pi :: u32
  assumes sm: "unat sm = stp mod unat p"
    and lt: "unat off_pi < unat p"
    and dv: "(b + unat off_pi) mod unat p = 0"
  shows "unat (carry_offset p sm off_pi) < unat p
       \<and> (b + stp + unat (carry_offset p sm off_pi)) mod unat p = 0"
proof -
  have smlt: "unat sm < unat p" using sm lt by simp
  have val: "unat (carry_offset p sm off_pi)
      = (if unat sm \<le> unat off_pi then unat off_pi - unat sm else unat off_pi + unat p - unat sm)"
  proof (cases "unat sm \<le> unat off_pi")
    case True
    thus ?thesis by (auto simp: carry_offset_def word_le_nat_alt unat_sub word_unat_eq_iff)
  next
    case False
    hence nz: "sm \<noteq> 0" by (auto simp: word_unat_eq_iff)
    have "off_pi + p - sm = of_nat (unat off_pi + unat p - unat sm)"
      using smlt by (simp add: of_nat_diff)
    moreover have "unat off_pi + unat p - unat sm < 2^32"
      using False smlt unat_lt_2p32[of p] by linarith
    ultimately have "unat (off_pi + p - sm) = unat off_pi + unat p - unat sm"
      by (simp add: unat_of_nat_u32)
    thus ?thesis using False nz by (simp add: carry_offset_def word_le_nat_alt)
  qed
  have bound: "unat (carry_offset p sm off_pi) < unat p"
    using smlt lt by (auto simp: val)
  have tot: "unat (carry_offset p sm off_pi) + unat sm = unat off_pi \<or>
        unat (carry_offset p sm off_pi) + unat sm = unat off_pi + unat p"
    using smlt lt by (auto simp: val)
  have "(b + stp + unat (carry_offset p sm off_pi)) mod unat p
      = (b + unat (carry_offset p sm off_pi) + stp) mod unat p"
    by (simp add: ac_simps)
  also have "\<dots> = (b + unat (carry_offset p sm off_pi) + stp mod unat p) mod unat p"
    by (simp add: mod_add_right_eq)
  also have "\<dots> = (b + (unat (carry_offset p sm off_pi) + unat sm)) mod unat p"
    by (simp add: sm ac_simps)
  also have "\<dots> = (b + unat off_pi) mod unat p"
  proof -
    from tot show ?thesis
    proof
      assume "unat (carry_offset p sm off_pi) + unat sm = unat off_pi"
      thus ?thesis by simp
    next
      assume "unat (carry_offset p sm off_pi) + unat sm = unat off_pi + unat p"
      hence "b + (unat (carry_offset p sm off_pi) + unat sm) = (b + unat off_pi) + unat p" by simp
      thus ?thesis by (simp only: mod_add_self2)
    qed
  qed
  finally show ?thesis using bound dv by simp
qed

lemma sieve_primes_off:
  assumes "sieve_primes e win_len pis (off, residual) = Some (off', residual')"
    and "distinct pis"
  shows "length off' = length off
       \<and> (\<forall>i < length off. off' ! i =
            (if i \<in> set pis then carry_offset (prime_at e i) (step_mod_C e ! i) (off ! i)
             else off ! i))"
  using assms
proof (induction pis arbitrary: off residual)
  case Nil
  thus ?case by simp
next
  case (Cons pi pis)
  from Cons.prems(1) obtain r1 where
    r1: "sieve_multiples (prime_at e pi) (fd_C e ! pi) win_len (off ! pi) residual = Some r1"
    and rest: "sieve_primes e win_len pis
        (off[pi := carry_offset (prime_at e pi) (step_mod_C e ! pi) (off ! pi)], r1) = Some (off', residual')"
    by (auto simp: Let_def bind_eq_Some_conv)
  have d: "distinct pis" "pi \<notin> set pis" using Cons.prems(2) by simp_all
  let ?off1 = "off[pi := carry_offset (prime_at e pi) (step_mod_C e ! pi) (off ! pi)]"
  note ih = Cons.IH[OF rest d(1)]
  show ?case
  proof (intro conjI allI impI)
    show "length off' = length off" using ih by simp
  next
    fix i assume i: "i < length off"
    hence ih': "off' ! i = (if i \<in> set pis
        then carry_offset (prime_at e i) (step_mod_C e ! i) (?off1 ! i) else ?off1 ! i)"
      using ih by simp
    show "off' ! i = (if i \<in> set (pi # pis)
        then carry_offset (prime_at e i) (step_mod_C e ! i) (off ! i) else off ! i)"
    proof (cases "i = pi")
      case True
      thus ?thesis using ih' d(2) i by simp
    next
      case False
      hence "?off1 ! i = off ! i" by simp
      thus ?thesis using ih' False by simp
    qed
  qed
qed

lemma sieve_window_off:
  assumes "sieve_window_bad_bits_carried_fastdiv e base_test start_count off residual bad_bits
           = Some (off', residual', bad_bits')"
    and "pi < unat (count_C (primes_C e))" "pi < length off"
  shows "length off' = length off"
    and "off' ! pi = carry_offset (prime_at e pi) (step_mod_C e ! pi) (off ! pi)"
proof -
  from assms(1) obtain r0 where
    sp: "sieve_primes e (start_count + k_C e) [0..<unat (count_C (primes_C e))] (off, r0) = Some (off', residual')"
    by (auto simp: sieve_window_bad_bits_carried_fastdiv_def Let_def bind_eq_Some_conv)
  from sieve_primes_off[OF sp] assms(2,3)
  show "length off' = length off"
    and "off' ! pi = carry_offset (prime_at e pi) (step_mod_C e ! pi) (off ! pi)"
    by simp_all
qed

section \<open>The prime list when an allocation fails\<close>

text \<open>
  Claim C9 says that \<open>primes_upto\<close> fails with an out-of-memory error that can be told
  from a successful empty result.  The source returns the zero \<open>PrimeList\<close> when \<open>calloc\<close>
  or \<open>malloc\<close> fails (lines 109 and 120), the very value it returns for \<open>n < 2\<close>, and
  prints nothing; \<open>find_m_for_k\<close> does not look at it.  Here \<open>primes_upto 10\<close> is evaluated
  with every allocation failing, with only the \<open>malloc\<close> of 16 bytes failing, and with no
  failure; and \<open>main\<close> for K = 2, one thread, \<open>tile_len = 4\<close>, \<open>batch_tiles = 2\<close> is run
  with no failure (m(2) = 4) and with the \<open>calloc\<close> of 3 bytes for k = 2 failing: it then
  goes on with no prime and computes m(2) = 1.
\<close>

theorem primes_upto_allocation_failure_is_silent:
  "primes_upto (\<lambda>n. False) 10 = Some \<lparr>p_C = None, count_C = 0\<rparr>
   \<and> primes_upto (\<lambda>n. n \<noteq> 16) 10 = Some \<lparr>p_C = None, count_C = 0\<rparr>
   \<and> primes_upto (\<lambda>n. True) 1 = Some \<lparr>p_C = None, count_C = 0\<rparr>
   \<and> primes_upto (\<lambda>n. True) 10 = Some \<lparr>p_C = Some [2, 3, 5, 7], count_C = 4\<rparr>
   \<and> main_run (\<lambda>n. True) (\<lambda>t. 0) 4 2 1 4 2 = Some ([(1, 1), (2, 4)], [1, 4])
   \<and> main_run (\<lambda>n. n \<noteq> 3) (\<lambda>t. 0) 4 2 1 4 2 = Some ([(1, 1)], [1, 1])"
  by code_simp

section \<open>Primes, smooth numbers and the stripping of one prime\<close>

lemma is_prime_ge2: "is_prime p \<Longrightarrow> 2 \<le> p"
  by (simp add: is_prime_def)

lemma is_prime_divisors:
  assumes "is_prime p" "q dvd p"
  shows "q = 1 \<or> q = p"
proof -
  have p2: "2 \<le> p" using assms(1) by (rule is_prime_ge2)
  have "q \<le> p" using assms(2) p2 by (intro dvd_imp_le) simp_all
  moreover have "q \<noteq> 0" using assms(2) p2 by (cases "q = 0") simp_all
  ultimately have "q = 1 \<or> q = p \<or> (2 \<le> q \<and> q < p)" by linarith
  thus ?thesis using assms by (auto simp: is_prime_def)
qed

lemma is_prime_coprime:
  assumes "is_prime p" "\<not> p dvd a"
  shows "coprime p a"
proof (rule coprimeI)
  fix c assume c: "c dvd p" "c dvd a"
  from is_prime_divisors[OF assms(1) c(1)] show "is_unit c"
    using c(2) assms(2) by auto
qed

lemma is_prime_dvd_mult:
  assumes "is_prime p" "p dvd a * b"
  shows "p dvd a \<or> p dvd b"
proof (cases "p dvd a")
  case True thus ?thesis by simp
next
  case False
  hence "coprime p a" using assms(1) by (intro is_prime_coprime)
  thus ?thesis using assms(2) by (simp add: coprime_dvd_mult_right_iff)
qed

lemma is_prime_dvd_power:
  assumes "is_prime p" "p dvd a ^ n"
  shows "p dvd a"
  using assms(2)
proof (induction n)
  case 0
  thus ?case using is_prime_ge2[OF assms(1)] by simp
next
  case (Suc n)
  thus ?case using is_prime_dvd_mult[OF assms(1), of a "a ^ n"] by auto
qed

lemma is_prime_dvd_prime:
  assumes "is_prime p" "is_prime q" "p dvd q"
  shows "p = q"
  using is_prime_divisors[OF assms(2,3)] is_prime_ge2[OF assms(1)] by auto

lemma prime_factor_exists:
  "2 \<le> n \<Longrightarrow> \<exists>p. is_prime p \<and> p dvd n"
proof (induction n rule: less_induct)
  case (less n)
  show ?case
  proof (cases "is_prime n")
    case True thus ?thesis by auto
  next
    case False
    then obtain q where q: "2 \<le> q" "q < n" "q dvd n"
      using less.prems by (auto simp: is_prime_def)
    from less.IH[OF q(2) q(1)] obtain p where "is_prime p" "p dvd q" by blast
    thus ?thesis using q(3) by (meson dvd_trans)
  qed
qed

lemma k_smooth_iff:
  "k_smooth k n \<longleftrightarrow> 0 < n \<and> (\<forall>q. is_prime q \<and> q dvd n \<longrightarrow> q \<le> k)"
proof -
  have "q \<in> {2..n}" if "is_prime q" "q dvd n" "0 < n" for q
    using that is_prime_ge2[of q] dvd_imp_le[of q n] by simp
  thus ?thesis unfolding k_smooth_def by blast
qed

lemma stripped_pos: "stripped p x y \<Longrightarrow> 0 < x \<Longrightarrow> 0 < y"
  by (auto simp: stripped_def)

lemma stripped_dvd: "stripped p x y \<Longrightarrow> y dvd x"
  by (auto simp: stripped_def)

lemma strip_odd_prime_correct:
  assumes fd: "2 \<le> unat (d_C fd)" "unat (mul_C fd) * unat (d_C fd) \<le> 2^64"
      "2^64 \<le> unat (mul_C fd) * unat (d_C fd) + unat (d_C fd)"
    and "x \<noteq> 0"
  shows "\<exists>y. strip_odd_prime fd x = Some y \<and> stripped (unat (d_C fd)) (unat x) (unat y)"
  using assms(4)
proof (induction "unat x" arbitrary: x rule: less_induct)
  case less
  let ?d = "unat (d_C fd)"
  obtain q r where qr: "fastdiv_u32_divmod fd x = (q, r)" by force
  have dm: "unat q = unat x div ?d" "unat r = unat x mod ?d"
    using fastdiv_u32_divmod_general[OF fd, of x] qr by simp_all
  have xpos: "0 < unat x" using less.prems by (simp add: unat_gt_0)
  show ?case
  proof (cases "r = 0")
    case False
    hence "unat x mod ?d \<noteq> 0" using dm(2) by (auto simp: word_unat_eq_iff)
    hence nd: "\<not> ?d dvd unat x" by (simp add: dvd_eq_mod_eq_0)
    have "strip_odd_prime fd x = Some x"
      using False qr by (simp add: strip_odd_prime.simps[of fd x] fastdiv_u32_divide_if_divisible_def)
    moreover have "stripped ?d (unat x) (unat x)"
      unfolding stripped_def using nd by (intro exI[of _ 0]) simp
    ultimately show ?thesis by blast
  next
    case True
    hence dv: "?d dvd unat x" using dm(2) by (simp add: dvd_eq_mod_eq_0)
    have step: "strip_odd_prime fd x = strip_odd_prime fd q"
      using True qr by (simp add: strip_odd_prime.simps[of fd x] fastdiv_u32_divide_if_divisible_def)
    have xq: "unat x = ?d * unat q" using dv dm(1) by simp
    have qnz: "q \<noteq> 0" using xq xpos by (auto simp: word_unat_eq_iff)
    hence qpos: "0 < unat q" by (simp add: unat_gt_0)
    have "2 * unat q \<le> ?d * unat q" using fd(1) by (rule mult_le_mono1)
    hence qlt: "unat q < unat x" using xq qpos by linarith
    from less.hyps[OF qlt qnz] obtain y where
      y: "strip_odd_prime fd q = Some y" "stripped ?d (unat q) (unat y)" by blast
    from y(2) obtain a where a: "unat q = ?d ^ a * unat y" "\<not> ?d dvd unat y"
      by (auto simp: stripped_def)
    have "unat x = ?d ^ Suc a * unat y" using xq a(1) by simp
    hence "stripped ?d (unat x) (unat y)" using a(2) unfolding stripped_def by blast
    thus ?thesis using step y(1) by simp
  qed
qed

lemma takeWhile_upt_prefix:
  assumes "i < length (takeWhile P [0..<n])"
  shows "P i"
proof -
  have len: "length (takeWhile P [0..<n]) \<le> n"
    using length_takeWhile_le[of P "[0..<n]"] by simp
  have "takeWhile P [0..<n] ! i = [0..<n] ! i" using assms by (rule takeWhile_nth)
  hence "takeWhile P [0..<n] ! i = i" using assms len by simp
  moreover have "takeWhile P [0..<n] ! i \<in> set (takeWhile P [0..<n])" using assms by simp
  ultimately show ?thesis by (metis set_takeWhileD)
qed

lemma takeWhile_upt_stop:
  assumes "length (takeWhile P [0..<n]) < n"
  shows "\<not> P (length (takeWhile P [0..<n]))"
  using nth_length_takeWhile[of P "[0..<n]"] assms by simp

lemma builtin_ctzll_strips:
  assumes "x \<noteq> 0"
  shows "\<exists>n. builtin_ctzll x = Some n \<and> unat x = 2 ^ n * unat (drop_bit n x)
           \<and> odd (unat (drop_bit n x))"
proof -
  define n where "n = length (takeWhile (\<lambda>i. \<not> bit x i) [0..<64])"
  have n64: "n \<le> 64" unfolding n_def using length_takeWhile_le[of _ "[0..<64]"] by simp
  have low: "\<not> bit x i" if "i < n" for i
    using takeWhile_upt_prefix[of i "\<lambda>i. \<not> bit x i" 64] that by (simp add: n_def)
  have "n \<noteq> 64"
  proof
    assume "n = 64"
    hence "\<not> bit x i" for i
      using low[of i] by (cases "i < 64") (auto dest: bit_imp_le_length)
    hence "x = 0" by (simp add: bit_eq_iff)
    thus False using assms by simp
  qed
  hence nlt: "n < 64" using n64 by simp
  have hi: "bit x n"
    using takeWhile_upt_stop[of "\<lambda>i. \<not> bit x i" 64] nlt by (simp add: n_def)
  have "take_bit n (unat x) = 0"
    by (rule bit_eqI) (auto simp: bit_take_bit_iff bit_unsigned_iff low)
  hence dv: "2 ^ n dvd unat x" by (simp add: take_bit_eq_0_iff)
  have "bit (unat x) n" using hi by (simp add: bit_unsigned_iff)
  hence odd: "\<not> 2 dvd (unat x div 2 ^ n)" by (simp add: bit_iff_odd)
  have "unat (drop_bit n x) = unat x div 2 ^ n"
    by (subst unat_drop_bit_eq) (simp add: drop_bit_eq_div)
  thus ?thesis using assms dv odd by (simp add: builtin_ctzll_def n_def)
qed

lemma builtin_ctzll_correct:
  assumes "x \<noteq> 0"
  shows "\<exists>n. builtin_ctzll x = Some n \<and> stripped 2 (unat x) (unat (drop_bit n x))"
proof -
  from builtin_ctzll_strips[OF assms] obtain n where
    n: "builtin_ctzll x = Some n" "unat x = 2 ^ n * unat (drop_bit n x)" "odd (unat (drop_bit n x))"
    by blast
  have "stripped 2 (unat x) (unat (drop_bit n x))"
    unfolding stripped_def using n(2,3) by blast
  thus ?thesis using n(1) by blast
qed

lemma strip_prime_correct:
  assumes "is_prime (unat p)" "x \<noteq> 0"
  shows "\<exists>y. strip_prime p (fastdiv_u32_make_prime p) x = Some y \<and> stripped (unat p) (unat x) (unat y)"
proof (cases "p = 2")
  case True
  from builtin_ctzll_correct[OF assms(2)] show ?thesis
    using True by (auto simp: strip_prime_def)
next
  case False
  have p2: "2 \<le> unat p" using assms(1) by (rule is_prime_ge2)
  from strip_odd_prime_correct[of "fastdiv_u32_make_prime p" x] fastdiv_recip_bounds[OF p2] p2 assms(2)
  show ?thesis using False by (simp add: strip_prime_def make_prime_d)
qed

section \<open>The loop over the multiples of one prime\<close>

lemma sieve_multiples_correct:
  fixes p :: u32
  assumes pr: "is_prime (unat p)"
    and nowrap: "unat win_len + unat p \<le> 2^32"
    and len: "unat win_len \<le> length residual"
    and nz: "\<forall>j < unat win_len. residual ! j \<noteq> 0"
  shows "\<exists>res'. sieve_multiples p (fastdiv_u32_make_prime p) win_len i residual = Some res'
      \<and> length res' = length residual
      \<and> (\<forall>j < unat win_len.
            if \<exists>t. j = unat i + t * unat p
            then stripped (unat p) (unat (residual ! j)) (unat (res' ! j))
            else res' ! j = residual ! j)"
  using len nz
proof (induction "unat win_len - unat i" arbitrary: i residual rule: less_induct)
  case less
  let ?f = "fastdiv_u32_make_prime p"
  have p2: "2 \<le> unat p" using pr by (rule is_prime_ge2)
  show ?case
  proof (cases "i < win_len")
    case False
    hence ge: "unat win_len \<le> unat i" by (simp add: word_le_nat_alt not_less)
    have "sieve_multiples p ?f win_len i residual = Some residual"
      using False by (simp add: sieve_multiples.simps[of p ?f win_len i])
    moreover have "\<not> (\<exists>t. j = unat i + t * unat p)" if "j < unat win_len" for j
      using that ge by auto
    ultimately show ?thesis by simp
  next
    case True
    hence lt: "unat i < unat win_len" by (simp add: word_less_nat_alt)
    let ?x = "residual ! unat i"
    have xnz: "?x \<noteq> 0" using less.prems(2) lt by simp
    from strip_prime_correct[OF pr xnz] obtain y where
      y: "strip_prime p ?f ?x = Some y" "stripped (unat p) (unat ?x) (unat y)" by blast
    have ynz: "y \<noteq> 0"
      using stripped_pos[OF y(2)] xnz by (simp add: unat_gt_0)
    let ?r1 = "residual[unat i := y]"
    let ?i1 = "i + p"
    have i1: "unat ?i1 = unat i + unat p"
      using lt nowrap by (simp add: unat_word_ariths)
    have step: "sieve_multiples p ?f win_len i residual = sieve_multiples p ?f win_len ?i1 ?r1"
      using True y(1) by (simp add: sieve_multiples.simps[of p ?f win_len i])
    have m: "unat win_len - unat ?i1 < unat win_len - unat i" using i1 lt p2 by simp
    have len1: "unat win_len \<le> length ?r1" using less.prems(1) by simp
    have nz1: "\<forall>j < unat win_len. ?r1 ! j \<noteq> 0"
    proof (intro allI impI)
      fix j assume "j < unat win_len"
      thus "?r1 ! j \<noteq> 0"
        using less.prems ynz by (cases "j = unat i") simp_all
    qed
    from less.hyps[OF m len1 nz1] obtain res' where
      r: "sieve_multiples p ?f win_len ?i1 ?r1 = Some res'" "length res' = length ?r1"
      and v: "\<forall>j < unat win_len.
            if \<exists>t. j = unat ?i1 + t * unat p
            then stripped (unat p) (unat (?r1 ! j)) (unat (res' ! j))
            else res' ! j = ?r1 ! j"
      by blast
    have "if \<exists>t. j = unat i + t * unat p
            then stripped (unat p) (unat (residual ! j)) (unat (res' ! j))
            else res' ! j = residual ! j" if j: "j < unat win_len" for j
    proof (cases "j = unat i")
      case True
      have "\<not> (\<exists>t. j = unat ?i1 + t * unat p)" using True i1 p2 by auto
      moreover have "if \<exists>t. j = unat ?i1 + t * unat p
            then stripped (unat p) (unat (?r1 ! j)) (unat (res' ! j))
            else res' ! j = ?r1 ! j" using v j by blast
      ultimately have "res' ! j = ?r1 ! j" by simp
      hence "res' ! j = y" using True less.prems(1) lt by simp
      moreover have "\<exists>t. j = unat i + t * unat p" using True by (intro exI[of _ 0]) simp
      ultimately show ?thesis using y(2) True by simp
    next
      case False
      have eq: "(\<exists>t. j = unat i + t * unat p) = (\<exists>t. j = unat ?i1 + t * unat p)"
      proof
        assume "\<exists>t. j = unat i + t * unat p"
        then obtain t where t: "j = unat i + t * unat p" by blast
        hence "t \<noteq> 0" using False by (cases t) simp_all
        then obtain t' where "t = Suc t'" by (cases t) simp_all
        hence "j = unat ?i1 + t' * unat p" using t i1 by simp
        thus "\<exists>t. j = unat ?i1 + t * unat p" by blast
      next
        assume "\<exists>t. j = unat ?i1 + t * unat p"
        then obtain t where "j = unat ?i1 + t * unat p" by blast
        hence "j = unat i + Suc t * unat p" using i1 by simp
        thus "\<exists>t. j = unat i + t * unat p" by blast
      qed
      have r1j: "?r1 ! j = residual ! j" using False by simp
      have vj: "if \<exists>t. j = unat ?i1 + t * unat p
            then stripped (unat p) (unat (?r1 ! j)) (unat (res' ! j))
            else res' ! j = ?r1 ! j" using v j by blast
      show ?thesis using vj unfolding eq r1j .
    qed
    thus ?thesis using step r by simp
  qed
qed

lemma visited_iff_dvd:
  fixes b off p :: nat
  assumes "0 < p" "off < p" "(b + off) mod p = 0"
  shows "(\<exists>t. j = off + t * p) \<longleftrightarrow> p dvd (b + j)"
proof
  assume "\<exists>t. j = off + t * p"
  then obtain t where "j = off + t * p" by blast
  hence "b + j = (b + off) + t * p" by simp
  moreover have "p dvd (b + off)" using assms(3) by (simp add: dvd_eq_mod_eq_0)
  ultimately show "p dvd (b + j)" by (simp only: dvd_add dvd_triv_right)
next
  assume dj: "p dvd (b + j)"
  have do: "p dvd (b + off)" using assms(3) by (simp add: dvd_eq_mod_eq_0)
  have ge: "off \<le> j"
  proof (rule ccontr)
    assume "\<not> off \<le> j"
    hence lt: "j < off" by simp
    have "p dvd ((b + off) - (b + j))" using do dj by (rule dvd_diff_nat)
    hence "p dvd (off - j)" by simp
    moreover have "0 < off - j" "off - j < p" using lt assms(2) by simp_all
    ultimately show False by (meson dvd_imp_le not_less)
  qed
  have "p dvd ((b + j) - (b + off))" using dj do by (rule dvd_diff_nat)
  hence "p dvd (j - off)" by simp
  then obtain t where "j - off = p * t" by (auto simp: dvd_def)
  hence "j = off + t * p" using ge by (simp add: mult.commute)
  thus "\<exists>t. j = off + t * p" by blast
qed

section \<open>The loop over the primes\<close>

lemma epoch_primes_ok_nth:
  assumes "epoch_primes_ok e" "pi < unat (count_C (primes_C e))"
  shows "is_prime (unat (prime_at e pi))" "unat (prime_at e pi) \<le> unat (k_C e)"
    "fd_C e ! pi = fastdiv_u32_make_prime (prime_at e pi)"
proof -
  let ?pc = "unat (count_C (primes_C e))"
  have m: "map (\<lambda>pi. unat (prime_at e pi)) [0..<?pc] = filter is_prime [0..<Suc (unat (k_C e))]"
    using assms(1) by (simp add: epoch_primes_ok_def Let_def)
  have "unat (prime_at e pi) \<in> set (map (\<lambda>pi. unat (prime_at e pi)) [0..<?pc])"
    using assms(2) by auto
  hence "unat (prime_at e pi) \<in> set (filter is_prime [0..<Suc (unat (k_C e))])"
    by (simp only: m)
  thus "is_prime (unat (prime_at e pi))" "unat (prime_at e pi) \<le> unat (k_C e)"
    by (auto simp del: upt_Suc)
  show "fd_C e ! pi = fastdiv_u32_make_prime (prime_at e pi)"
    using assms by (simp add: epoch_primes_ok_def Let_def)
qed

lemma epoch_primes_ok_all:
  assumes "epoch_primes_ok e"
  shows "(\<lambda>pi. unat (prime_at e pi)) ` {0..<unat (count_C (primes_C e))}
         = {q. is_prime q \<and> q \<le> unat (k_C e)}"
proof -
  let ?pc = "unat (count_C (primes_C e))"
  have m: "map (\<lambda>pi. unat (prime_at e pi)) [0..<?pc] = filter is_prime [0..<Suc (unat (k_C e))]"
    using assms(1) by (simp add: epoch_primes_ok_def Let_def)
  have "(\<lambda>pi. unat (prime_at e pi)) ` {0..<?pc} = set (map (\<lambda>pi. unat (prime_at e pi)) [0..<?pc])"
    by simp
  also have "\<dots> = set (filter is_prime [0..<Suc (unat (k_C e))])" by (simp only: m)
  also have "\<dots> = {q. is_prime q \<and> q \<le> unat (k_C e)}" by (auto simp del: upt_Suc)
  finally show ?thesis .
qed

lemma res_inv_step:
  assumes inv: "res_inv b S res wl" and pr: "is_prime p"
    and st: "\<forall>j < wl. if p dvd (b + j) then stripped p (unat (res ! j)) (unat (res' ! j))
                        else res' ! j = res ! j"
  shows "res_inv b (insert p S) res' wl"
  unfolding res_inv_def
proof (intro allI impI)
  fix j assume j: "j < wl"
  let ?n = "b + j" and ?r = "unat (res ! j)" and ?r' = "unat (res' ! j)"
  from inv j have i: "0 < ?r" "?r dvd ?n" "\<forall>q \<in> S. \<not> q dvd ?r"
    "\<forall>q. is_prime q \<and> q dvd ?n \<longrightarrow> q \<in> S \<or> q dvd ?r"
    by (simp_all add: res_inv_def)
  from st j have s: "if p dvd ?n then stripped p ?r ?r' else res' ! j = res ! j" by blast
  show "0 < ?r' \<and> ?r' dvd ?n \<and> (\<forall>q \<in> insert p S. \<not> q dvd ?r')
        \<and> (\<forall>q. is_prime q \<and> q dvd ?n \<longrightarrow> q \<in> insert p S \<or> q dvd ?r')"
  proof (cases "p dvd ?n")
    case False
    hence eq: "?r' = ?r" using s by simp
    have "\<not> p dvd ?r" using False i(2) by (meson dvd_trans)
    thus ?thesis using i eq by auto
  next
    case True
    hence "stripped p ?r ?r'" using s by simp
    then obtain a where a: "?r = p ^ a * ?r'" "\<not> p dvd ?r'" by (auto simp: stripped_def)
    have pos: "0 < ?r'" using a(1) i(1) by (cases "?r' = 0") simp_all
    have d1: "?r' dvd ?r" using a(1) by simp
    hence d: "?r' dvd ?n" using i(2) by (rule dvd_trans)
    have nS: "\<not> q dvd ?r'" if "q \<in> S" for q
      using that i(3) d1 by (meson dvd_trans)
    have I2: "q \<in> insert p S \<or> q dvd ?r'" if q: "is_prime q" "q dvd ?n" for q
    proof -
      from i(4) q have "q \<in> S \<or> q dvd ?r" by blast
      thus ?thesis
      proof
        assume "q \<in> S" thus ?thesis by simp
      next
        assume "q dvd ?r"
        hence "q dvd p ^ a * ?r'" using a(1) by simp
        hence "q dvd p ^ a \<or> q dvd ?r'" using q(1) by (rule is_prime_dvd_mult[rotated])
        thus ?thesis
        proof
          assume "q dvd p ^ a"
          hence "q dvd p" using q(1) by (rule is_prime_dvd_power[rotated])
          hence "q = p" using q(1) pr by (intro is_prime_dvd_prime)
          thus ?thesis by simp
        next
          assume "q dvd ?r'" thus ?thesis by simp
        qed
      qed
    qed
    show ?thesis using pos d a(2) nS I2 by auto
  qed
qed

lemma sieve_primes_inv:
  assumes ok: "epoch_primes_ok e"
    and nowrap: "unat win_len + unat (k_C e) \<le> 2^32"
  shows "set pis \<subseteq> {0..<unat (count_C (primes_C e))} \<Longrightarrow> distinct pis \<Longrightarrow>
     \<forall>pi \<in> set pis. unat (off ! pi) < unat (prime_at e pi)
            \<and> (b + unat (off ! pi)) mod unat (prime_at e pi) = 0 \<Longrightarrow>
     unat win_len \<le> length res \<Longrightarrow> res_inv b S res (unat win_len) \<Longrightarrow>
     \<exists>off' res'. sieve_primes e win_len pis (off, res) = Some (off', res')
        \<and> length res' = length res
        \<and> res_inv b (S \<union> (\<lambda>pi. unat (prime_at e pi)) ` set pis) res' (unat win_len)"
proof (induction pis arbitrary: off res S)
  case Nil
  thus ?case by simp
next
  case (Cons pi pis)
  let ?p = "prime_at e pi"
  have pi: "pi < unat (count_C (primes_C e))" using Cons.prems(1) by simp
  note pf = epoch_primes_ok_nth[OF ok pi]
  have p2: "2 \<le> unat ?p" using pf(1) by (rule is_prime_ge2)
  have nw: "unat win_len + unat ?p \<le> 2^32" using nowrap pf(2) by linarith
  have nz: "\<forall>j < unat win_len. res ! j \<noteq> 0"
    using Cons.prems(5) by (auto simp: res_inv_def)
  have offpi: "unat (off ! pi) < unat ?p" "(b + unat (off ! pi)) mod unat ?p = 0"
    using Cons.prems(3) by simp_all
  from sieve_multiples_correct[OF pf(1) nw Cons.prems(4) nz, of "off ! pi"] obtain res1 where
    r1: "sieve_multiples ?p (fastdiv_u32_make_prime ?p) win_len (off ! pi) res = Some res1"
      "length res1 = length res"
    and v: "\<forall>j < unat win_len.
            if \<exists>t. j = unat (off ! pi) + t * unat ?p
            then stripped (unat ?p) (unat (res ! j)) (unat (res1 ! j))
            else res1 ! j = res ! j"
    by blast
  have vis: "(\<exists>t. j = unat (off ! pi) + t * unat ?p) = (unat ?p dvd (b + j))" for j
    using visited_iff_dvd[of "unat ?p" "unat (off ! pi)" b j] p2 offpi by simp
  have st: "\<forall>j < unat win_len. if unat ?p dvd (b + j)
       then stripped (unat ?p) (unat (res ! j)) (unat (res1 ! j)) else res1 ! j = res ! j"
    using v unfolding vis .
  have inv1: "res_inv b (insert (unat ?p) S) res1 (unat win_len)"
    using Cons.prems(5) pf(1) st by (rule res_inv_step)
  let ?off1 = "off[pi := carry_offset ?p (step_mod_C e ! pi) (off ! pi)]"
  have d: "distinct pis" "pi \<notin> set pis" using Cons.prems(2) by simp_all
  have offs1: "\<forall>pi' \<in> set pis. unat (?off1 ! pi') < unat (prime_at e pi')
            \<and> (b + unat (?off1 ! pi')) mod unat (prime_at e pi') = 0"
  proof
    fix pi' assume m: "pi' \<in> set pis"
    hence "pi' \<noteq> pi" using d(2) by auto
    hence "?off1 ! pi' = off ! pi'" by simp
    thus "unat (?off1 ! pi') < unat (prime_at e pi')
            \<and> (b + unat (?off1 ! pi')) mod unat (prime_at e pi') = 0"
      using Cons.prems(3) m by simp
  qed
  have sub: "set pis \<subseteq> {0..<unat (count_C (primes_C e))}" using Cons.prems(1) by simp
  have len1: "unat win_len \<le> length res1" using Cons.prems(4) r1(2) by simp
  from Cons.IH[OF sub d(1) offs1 len1 inv1] obtain off' res' where
    r: "sieve_primes e win_len pis (?off1, res1) = Some (off', res')" "length res' = length res1"
      "res_inv b (insert (unat ?p) S \<union> (\<lambda>pi. unat (prime_at e pi)) ` set pis) res' (unat win_len)"
    by blast
  have "sieve_primes e win_len (pi # pis) (off, res) = Some (off', res')"
    using r1(1) r(1) pf(3) by (simp add: Let_def)
  moreover have "insert (unat ?p) S \<union> (\<lambda>pi. unat (prime_at e pi)) ` set pis
        = S \<union> (\<lambda>pi. unat (prime_at e pi)) ` set (pi # pis)" by auto
  ultimately show ?case using r(2,3) r1(2) by (simp del: set_simps image_insert insert_iff)
qed

section \<open>The tile sieve classifies the smooth values\<close>

lemma fold_seed:
  "n \<le> length xs \<Longrightarrow>
     length (fold (\<lambda>i r. r[i := f i]) [0..<n] xs) = length xs
     \<and> (\<forall>j < n. fold (\<lambda>i r. r[i := f i]) [0..<n] xs ! j = f j)"
proof (induction n)
  case 0
  show ?case by simp
next
  case (Suc n)
  hence ih: "length (fold (\<lambda>i r. r[i := f i]) [0..<n] xs) = length xs"
    "\<forall>j < n. fold (\<lambda>i r. r[i := f i]) [0..<n] xs ! j = f j" by simp_all
  show ?case using ih Suc.prems by (auto simp: nth_list_update less_Suc_eq)
qed

lemma fold_classify:
  "n \<le> 2^32 \<Longrightarrow> n \<le> 8 * length bits \<Longrightarrow>
     length (fold (\<lambda>i b. if P i then bitset_set b (of_nat i) else b) [0..<n] bits) = length bits
     \<and> (\<forall>j. bit_at (fold (\<lambda>i b. if P i then bitset_set b (of_nat i) else b) [0..<n] bits) j
            \<longleftrightarrow> (j < n \<and> P j) \<or> bit_at bits j)"
proof (induction n)
  case 0
  show ?case by simp
next
  case (Suc n)
  let ?b = "fold (\<lambda>i b. if P i then bitset_set b (of_nat i) else b) [0..<n] bits"
  have ih: "length ?b = length bits" "\<forall>j. bit_at ?b j \<longleftrightarrow> (j < n \<and> P j) \<or> bit_at bits j"
    using Suc by simp_all
  have n32: "n < 2^32" using Suc.prems(1) by simp
  have nb: "n div 8 < length ?b" using Suc.prems(2) ih(1) by simp
  show ?case
  proof (cases "P n")
    case False
    thus ?thesis using ih by (auto simp: less_Suc_eq)
  next
    case True
    have "bit_at (bitset_set ?b (of_nat n)) j = (j = n \<or> bit_at ?b j)" for j
      using n32 nb by (rule bitset_set_bit_at)
    thus ?thesis using True ih by (auto simp: less_Suc_eq bitset_set_length)
  qed
qed

lemma res_inv_seed:
  assumes "1 \<le> b" "\<forall>j < wl. unat (res ! j) = b + j"
  shows "res_inv b {} res wl"
  using assms by (simp add: res_inv_def)

lemma res_inv_final:
  assumes inv: "res_inv b {q. is_prime q \<and> q \<le> k} res wl" and j: "j < wl" and b: "1 \<le> b"
  shows "res ! j = 1 \<longleftrightarrow> k_smooth k (b + j)"
proof -
  let ?n = "b + j" and ?r = "unat (res ! j)"
  from inv j have i: "0 < ?r" "?r dvd ?n" "\<forall>q. is_prime q \<and> q \<le> k \<longrightarrow> \<not> q dvd ?r"
    "\<forall>q. is_prime q \<and> q dvd ?n \<longrightarrow> (is_prime q \<and> q \<le> k) \<or> q dvd ?r"
    by (simp_all add: res_inv_def)
  have npos: "0 < ?n" using b by simp
  have r1: "res ! j = 1 \<longleftrightarrow> ?r = 1" by (simp add: word_unat_eq_iff)
  show ?thesis
  proof
    assume "res ! j = 1"
    hence one: "?r = 1" using r1 by simp
    have "q \<le> k" if q: "is_prime q" "q dvd ?n" for q
    proof -
      from i(4) q have "q \<le> k \<or> q dvd ?r" by blast
      moreover have "\<not> q dvd ?r" using one is_prime_ge2[OF q(1)] by simp
      ultimately show ?thesis by simp
    qed
    thus "k_smooth k ?n" using npos by (simp add: k_smooth_iff)
  next
    assume sm: "k_smooth k ?n"
    have "?r = 1"
    proof (rule ccontr)
      assume "?r \<noteq> 1"
      hence "2 \<le> ?r" using i(1) by linarith
      then obtain q where q: "is_prime q" "q dvd ?r" using prime_factor_exists by blast
      hence "q dvd ?n" using i(2) by (meson dvd_trans)
      hence "q \<le> k" using sm q(1) by (simp add: k_smooth_iff)
      thus False using i(3) q by blast
    qed
    thus "res ! j = 1" using r1 by simp
  qed
qed

lemma sieve_window_correct:
  assumes ok: "epoch_primes_ok e" and offs: "offsets_ok e base_test off"
    and base: "1 \<le> unat base_test"
      "unat base_test + unat start_count + unat (k_C e) \<le> 2^64"
    and nowrap: "unat start_count + 2 * unat (k_C e) + 8 \<le> 2^32"
    and len: "unat start_count + unat (k_C e) \<le> length residual"
      "unat start_count + unat (k_C e) \<le> 8 * length bad_bits"
  shows "\<exists>off' residual' bad_bits'.
      sieve_window_bad_bits_carried_fastdiv e base_test start_count off residual bad_bits
        = Some (off', residual', bad_bits')
      \<and> length residual' = length residual \<and> length bad_bits' = length bad_bits
      \<and> (\<forall>i < unat start_count + unat (k_C e).
            bit_at bad_bits' i \<longleftrightarrow> k_smooth (unat (k_C e)) (unat base_test + i))"
proof -
  let ?k = "k_C e"
  let ?wl = "start_count + ?k"
  let ?pc = "unat (count_C (primes_C e))"
  have wl: "unat ?wl = unat start_count + unat ?k"
    using nowrap by (simp add: unat_word_ariths)
  define res0 where "res0 = fold (\<lambda>i r. r[i := base_test + of_nat i]) [0..<unat ?wl] residual"
  define bits0 where "bits0 = bitset_clear bad_bits ?wl"
  have seed: "length res0 = length residual" "\<forall>j < unat ?wl. res0 ! j = base_test + of_nat j"
    unfolding res0_def using fold_seed[of "unat ?wl" residual "\<lambda>i. base_test + of_nat i"] len(1) wl
    by simp_all
  have val: "unat (res0 ! j) = unat base_test + j" if "j < unat ?wl" for j
  proof -
    have "j < 2^64" using that wl nowrap by simp
    hence "unat (of_nat j :: u64) = j" by (simp add: unat_of_nat)
    moreover have "unat base_test + j < 2^64" using that wl base(2) by simp
    ultimately have "unat (base_test + of_nat j) = unat base_test + j"
      by (simp add: unat_word_ariths)
    thus ?thesis using seed(2) that by simp
  qed
  have inv0: "res_inv (unat base_test) {} res0 (unat ?wl)"
    using base(1) val by (intro res_inv_seed) simp_all
  have offs': "\<forall>pi \<in> set [0..<?pc]. unat (off ! pi) < unat (prime_at e pi)
            \<and> (unat base_test + unat (off ! pi)) mod unat (prime_at e pi) = 0"
    using offs by (simp add: offsets_ok_def Let_def)
  have nw: "unat ?wl + unat ?k \<le> 2^32" using wl nowrap by simp
  have len0: "unat ?wl \<le> length res0" using seed(1) len(1) wl by simp
  have sub: "set [0..<?pc] \<subseteq> {0..<?pc}" "distinct [0..<?pc]" by simp_all
  from sieve_primes_inv[OF ok nw sub offs' len0 inv0] obtain off' res' where
    sp: "sieve_primes e ?wl [0..<?pc] (off, res0) = Some (off', res')"
      "length res' = length res0"
      "res_inv (unat base_test) ({} \<union> (\<lambda>pi. unat (prime_at e pi)) ` set [0..<?pc]) res' (unat ?wl)"
    by auto
  have S: "{} \<union> (\<lambda>pi. unat (prime_at e pi)) ` set [0..<?pc] = {q. is_prime q \<and> q \<le> unat ?k}"
    using epoch_primes_ok_all[OF ok] by simp
  have inv: "res_inv (unat base_test) {q. is_prime q \<and> q \<le> unat ?k} res' (unat ?wl)"
    using sp(3) unfolding S .
  define bits' where "bits' = fold (\<lambda>i b. if res' ! i = 1 then bitset_set b (of_nat i) else b)
      [0..<unat ?wl] bits0"
  have nb: "unat (drop_bit 3 (?wl + 7)) \<le> length bad_bits"
  proof -
    have "unat (?wl + 7) = unat ?wl + 7" using wl nowrap by (simp add: unat_word_ariths)
    hence "unat (drop_bit 3 (?wl + 7)) = (unat ?wl + 7) div 8"
      by (simp add: drop_bit_eq_div unat_div)
    thus ?thesis using len(2) wl by simp
  qed
  have l0: "length bits0 = length bad_bits"
    unfolding bits0_def using nb by (rule bitset_clear_length)
  have c0: "\<not> bit_at bits0 j" if "j < unat ?wl" for j
    unfolding bits0_def using that wl nowrap by (intro bitset_clear_bit_at) simp_all
  have cl: "length bits' = length bits0"
    "\<forall>j. bit_at bits' j \<longleftrightarrow> (j < unat ?wl \<and> res' ! j = 1) \<or> bit_at bits0 j"
    unfolding bits'_def
    using fold_classify[of "unat ?wl" bits0 "\<lambda>i. res' ! i = 1"] wl nowrap len(2) l0
    by simp_all
  have bits: "bit_at bits' j \<longleftrightarrow> k_smooth (unat ?k) (unat base_test + j)" if "j < unat ?wl" for j
    using cl(2) c0[OF that] res_inv_final[OF inv that base(1)] that by simp
  have "sieve_window_bad_bits_carried_fastdiv e base_test start_count off residual bad_bits
        = Some (off', res', bits')"
    using sp(1) by (simp add: sieve_window_bad_bits_carried_fastdiv_def Let_def
        res0_def[symmetric] bits0_def[symmetric] bits'_def[symmetric])
  thus ?thesis using sp(2) seed(1) cl(1) l0 bits wl by simp
qed

section \<open>The values the stripping is performed on\<close>

lemma sieve_multiples_visited_correct:
  fixes p :: u32
  assumes pr: "is_prime (unat p)"
    and nowrap: "unat win_len + unat p \<le> 2^32"
    and len: "unat win_len \<le> length residual"
    and nz: "\<forall>j < unat win_len. residual ! j \<noteq> 0"
  shows "\<exists>xs. sieve_multiples_visited p (fastdiv_u32_make_prime p) win_len i residual = Some xs
      \<and> set xs = (\<lambda>j. residual ! j) ` {j. j < unat win_len \<and> (\<exists>t. j = unat i + t * unat p)}"
  using len nz
proof (induction "unat win_len - unat i" arbitrary: i residual rule: less_induct)
  case less
  let ?f = "fastdiv_u32_make_prime p"
  have p2: "2 \<le> unat p" using pr by (rule is_prime_ge2)
  show ?case
  proof (cases "i < win_len")
    case False
    hence ge: "unat win_len \<le> unat i" by (simp add: word_le_nat_alt not_less)
    have "sieve_multiples_visited p ?f win_len i residual = Some []"
      using False by (simp add: sieve_multiples_visited.simps[of p ?f win_len i])
    moreover have "{j. j < unat win_len \<and> (\<exists>t. j = unat i + t * unat p)} = {}"
      using ge by auto
    ultimately show ?thesis by simp
  next
    case True
    hence lt: "unat i < unat win_len" by (simp add: word_less_nat_alt)
    let ?x = "residual ! unat i"
    have xnz: "?x \<noteq> 0" using less.prems(2) lt by simp
    from strip_prime_correct[OF pr xnz] obtain y where
      y: "strip_prime p ?f ?x = Some y" "stripped (unat p) (unat ?x) (unat y)" by blast
    have ynz: "y \<noteq> 0"
      using stripped_pos[OF y(2)] xnz by (simp add: unat_gt_0)
    let ?r1 = "residual[unat i := y]"
    let ?i1 = "i + p"
    have i1: "unat ?i1 = unat i + unat p"
      using lt nowrap by (simp add: unat_word_ariths)
    have m: "unat win_len - unat ?i1 < unat win_len - unat i" using i1 lt p2 by simp
    have len1: "unat win_len \<le> length ?r1" using less.prems(1) by simp
    have nz1: "\<forall>j < unat win_len. ?r1 ! j \<noteq> 0"
    proof (intro allI impI)
      fix j assume "j < unat win_len"
      thus "?r1 ! j \<noteq> 0"
        using less.prems ynz by (cases "j = unat i") simp_all
    qed
    from less.hyps[OF m len1 nz1] obtain xs where
      r: "sieve_multiples_visited p ?f win_len ?i1 ?r1 = Some xs"
      and v: "set xs = (\<lambda>j. ?r1 ! j) ` {j. j < unat win_len \<and> (\<exists>t. j = unat ?i1 + t * unat p)}"
      by blast
    have step: "sieve_multiples_visited p ?f win_len i residual = Some (?x # xs)"
      using True y(1) r by (simp add: sieve_multiples_visited.simps[of p ?f win_len i])
    have A: "(\<lambda>j. ?r1 ! j) ` {j. j < unat win_len \<and> (\<exists>t. j = unat ?i1 + t * unat p)}
           = (\<lambda>j. residual ! j) ` {j. j < unat win_len \<and> (\<exists>t. j = unat ?i1 + t * unat p)}"
    proof (rule image_cong[OF refl])
      fix j assume "j \<in> {j. j < unat win_len \<and> (\<exists>t. j = unat ?i1 + t * unat p)}"
      hence "j \<noteq> unat i" using i1 p2 by auto
      thus "?r1 ! j = residual ! j" by simp
    qed
    have B: "{j. j < unat win_len \<and> (\<exists>t. j = unat i + t * unat p)}
           = insert (unat i) {j. j < unat win_len \<and> (\<exists>t. j = unat ?i1 + t * unat p)}"
    proof -
      have eq: "(\<exists>t. j = unat i + t * unat p) = (j = unat i \<or> (\<exists>t. j = unat ?i1 + t * unat p))" for j
      proof
        assume "\<exists>t. j = unat i + t * unat p"
        then obtain t where t: "j = unat i + t * unat p" by blast
        show "j = unat i \<or> (\<exists>t. j = unat ?i1 + t * unat p)"
        proof (cases t)
          case 0 thus ?thesis using t by simp
        next
          case (Suc t')
          hence "j = unat ?i1 + t' * unat p" using t i1 by simp
          thus ?thesis by blast
        qed
      next
        assume "j = unat i \<or> (\<exists>t. j = unat ?i1 + t * unat p)"
        thus "\<exists>t. j = unat i + t * unat p"
        proof
          assume "j = unat i"
          thus ?thesis by (intro exI[of _ 0]) simp
        next
          assume "\<exists>t. j = unat ?i1 + t * unat p"
          then obtain t where "j = unat ?i1 + t * unat p" by blast
          hence "j = unat i + Suc t * unat p" using i1 by simp
          thus ?thesis by blast
        qed
      qed
      show ?thesis unfolding eq using lt by auto
    qed
    show ?thesis using step v unfolding A B by simp
  qed
qed

lemma primes_from_two:
  assumes "2 \<le> k"
  shows "filter is_prime [0..<Suc k] = 2 # filter is_prime [3..<Suc k]"
proof -
  have "[0..<Suc k] = [0..<3] @ [3..<Suc k]"
    using assms upt_add_eq_append[of 0 3 "Suc k - 3"] by simp
  moreover have "[0..<3] = [0, 1, 2]" by (simp add: upt_rec)
  moreover have "\<not> is_prime 0" "\<not> is_prime 1" "is_prime 2" by (simp_all add: is_prime_def)
  ultimately show ?thesis by (simp del: upt_Suc)
qed

lemma first_prime_is_two:
  assumes ok: "epoch_primes_ok e" and k2: "2 \<le> unat (k_C e)"
  shows "0 < unat (count_C (primes_C e))" "prime_at e 0 = 2"
    "\<forall>pi < unat (count_C (primes_C e)). prime_at e pi = 2 \<longrightarrow> pi = 0"
proof -
  let ?pc = "unat (count_C (primes_C e))"
  let ?f = "\<lambda>pi. unat (prime_at e pi)"
  let ?L = "filter is_prime [0..<Suc (unat (k_C e))]"
  have m: "map ?f [0..<?pc] = ?L"
    using ok by (simp add: epoch_primes_ok_def Let_def)
  have L: "?L = 2 # filter is_prime [3..<Suc (unat (k_C e))]" using k2 by (rule primes_from_two)
  have "length (map ?f [0..<?pc]) = length ?L" by (simp only: m)
  thus pos: "0 < ?pc" using L by (simp del: upt_Suc)
  have "map ?f [0..<?pc] ! 0 = ?L ! 0" by (simp only: m)
  hence "?f 0 = 2" using pos L by (simp del: upt_Suc)
  thus "prime_at e 0 = 2" by (simp add: word_unat_eq_iff)
  have "distinct ?L" by (simp del: upt_Suc)
  hence d: "distinct (map ?f [0..<?pc])" by (simp only: m)
  show "\<forall>pi < ?pc. prime_at e pi = 2 \<longrightarrow> pi = 0"
  proof (intro allI impI)
    fix pi assume pi: "pi < ?pc" "prime_at e pi = 2"
    hence "map ?f [0..<?pc] ! pi = map ?f [0..<?pc] ! 0"
      using pos \<open>prime_at e 0 = 2\<close> by simp
    moreover have "(map ?f [0..<?pc] ! pi = map ?f [0..<?pc] ! 0) = (pi = 0)"
      using d pi(1) pos by (intro nth_eq_iff_index_eq) simp_all
    ultimately show "pi = 0" by simp
  qed
qed

text \<open>
  Claim C5.  Let the prime list and the reciprocals be those of the epoch, and let
  \<open>off[pi]\<close> on entry be the least \<open>i \<ge> 0\<close> with \<open>base_test + i\<close> divisible by \<open>P[pi]\<close>, for
  every prime index.  For every \<open>base_test \<ge> 1\<close>, \<open>start_count\<close> and k such that the window
  stays within the machine integers (\<open>base_test + start_count + k \<le> 2^64\<close> and
  \<open>start_count + 2 k + 8 \<le> 2^32\<close>) and within the two buffers, the tile sieve returns, and
  on return \<open>bad_bits[i]\<close> is set if and only if \<open>base_test + i\<close> is k-smooth, for every i
  in \<open>[0, start_count + k)\<close>.
\<close>

theorem sieve_bad_bits_iff_smooth:
  assumes "epoch_primes_ok e" and "offsets_ok e base_test off"
    and "1 \<le> unat base_test"
    and "unat base_test + unat start_count + unat (k_C e) \<le> 2^64"
    and "unat start_count + 2 * unat (k_C e) + 8 \<le> 2^32"
    and "unat start_count + unat (k_C e) \<le> length residual"
    and "unat start_count + unat (k_C e) \<le> 8 * length bad_bits"
  shows "\<exists>off' residual' bad_bits'.
      sieve_window_bad_bits_carried_fastdiv e base_test start_count off residual bad_bits
        = Some (off', residual', bad_bits')
      \<and> (\<forall>i < unat start_count + unat (k_C e).
            (bit_at bad_bits' i \<longleftrightarrow> k_smooth (unat (k_C e)) (unat base_test + i))
          \<and> (bitset_get bad_bits' (of_nat i) = 1 \<longleftrightarrow> k_smooth (unat (k_C e)) (unat base_test + i)))"
proof -
  from sieve_window_correct[OF assms] obtain off' residual' bad_bits' where
    r: "sieve_window_bad_bits_carried_fastdiv e base_test start_count off residual bad_bits
        = Some (off', residual', bad_bits')"
    and b: "\<forall>i < unat start_count + unat (k_C e).
            bit_at bad_bits' i \<longleftrightarrow> k_smooth (unat (k_C e)) (unat base_test + i)"
    by blast
  have "bitset_get bad_bits' (of_nat i) = 1 \<longleftrightarrow> bit_at bad_bits' i"
    if "i < unat start_count + unat (k_C e)" for i
  proof -
    have "i < 2^32" using that assms(5) by simp
    thus ?thesis by (simp add: bitset_get_bit_at)
  qed
  thus ?thesis using r b by auto
qed

theorem sieve_bad_bits_iff_smooth_witness:
  "epoch_primes_ok example_epoch \<and> offsets_ok example_epoch 9 [1, 0]
   \<and> sieve_window_bad_bits_carried_fastdiv example_epoch 9 4 [1, 0] (replicate 7 0) [0]
       = Some ([1, 2], [1, 5, 11, 1, 13, 7, 5], [9])
   \<and> (bit_at [9] 0 \<longleftrightarrow> k_smooth 3 9) \<and> (bit_at [9] 1 \<longleftrightarrow> k_smooth 3 10)
   \<and> (bit_at [9] 3 \<longleftrightarrow> k_smooth 3 12) \<and> bit_at [9] 3 \<and> \<not> bit_at [9] 1"
proof -
  have h: "epoch_primes_ok example_epoch" "offsets_ok example_epoch 9 [1, 0]" by code_simp+
  have n: "1 \<le> unat (9 :: u64)"
    "unat (9 :: u64) + unat (4 :: u32) + unat (k_C example_epoch) \<le> 2^64"
    "unat (4 :: u32) + 2 * unat (k_C example_epoch) + 8 \<le> 2^32"
    "unat (4 :: u32) + unat (k_C example_epoch) \<le> length (replicate 7 (0 :: u64))"
    "unat (4 :: u32) + unat (k_C example_epoch) \<le> 8 * length [0 :: u8]"
    by (simp_all add: example_epoch_def)
  have run: "sieve_window_bad_bits_carried_fastdiv example_epoch 9 4 [1, 0] (replicate 7 0) [0]
       = Some ([1, 2], [1, 5, 11, 1, 13, 7, 5], [9])" by code_simp
  have b: "bit_at [9] 3" "\<not> bit_at [9] 1" by code_simp+
  from sieve_bad_bits_iff_smooth[OF h n] run
  have "\<forall>i < 7. bit_at [9] i \<longleftrightarrow> k_smooth 3 (9 + i)"
    by (simp add: example_epoch_def)
  hence "bit_at [9] 0 \<longleftrightarrow> k_smooth 3 (9 + 0)" "bit_at [9] 1 \<longleftrightarrow> k_smooth 3 (9 + 1)"
    "bit_at [9] 3 \<longleftrightarrow> k_smooth 3 (9 + 3)" by simp_all
  thus ?thesis using h run b by simp
qed

section \<open>The carried offsets after a tile\<close>

text \<open>
  Claim C7.  Let the prime list and the reciprocals be those of the epoch, let \<open>SM[pi]\<close> be
  \<open>step mod P[pi]\<close> for every prime index, and let on entry to the tile sieve
  \<open>off[pi] < P[pi]\<close> with \<open>P[pi]\<close> dividing \<open>base_test + off[pi]\<close>, for every prime index.
  For every \<open>base_test \<ge> 1\<close>, \<open>start_count\<close> and k such that the window stays within the
  machine integers and within the two buffers, the tile sieve returns, and in the offsets
  it returns \<open>off[pi] < P[pi]\<close> and \<open>P[pi]\<close> divides \<open>base_test + step + off[pi]\<close> (as natural
  numbers, with no wrap-around), for every prime index: the offsets are those of the
  worker's next tile.
\<close>

theorem sieve_carries_offset:
  assumes "epoch_primes_ok e" and "offsets_ok e base_test off"
    and "\<forall>pi < unat (count_C (primes_C e)).
           unat (step_mod_C e ! pi) = unat (step_C e) mod unat (prime_at e pi)"
    and "1 \<le> unat base_test"
    and "unat base_test + unat start_count + unat (k_C e) \<le> 2^64"
    and "unat start_count + 2 * unat (k_C e) + 8 \<le> 2^32"
    and "unat start_count + unat (k_C e) \<le> length residual"
    and "unat start_count + unat (k_C e) \<le> 8 * length bad_bits"
  shows "\<exists>off' residual' bad_bits'.
      sieve_window_bad_bits_carried_fastdiv e base_test start_count off residual bad_bits
        = Some (off', residual', bad_bits')
      \<and> (\<forall>pi < unat (count_C (primes_C e)).
            unat (off' ! pi) < unat (prime_at e pi)
            \<and> (unat base_test + unat (step_C e) + unat (off' ! pi)) mod unat (prime_at e pi) = 0)"
proof -
  from sieve_window_correct[OF assms(1,2,4,5,6,7,8)] obtain off' residual' bad_bits' where
    r: "sieve_window_bad_bits_carried_fastdiv e base_test start_count off residual bad_bits
        = Some (off', residual', bad_bits')"
    by blast
  have len: "unat (count_C (primes_C e)) \<le> length off"
    using assms(2) by (simp add: offsets_ok_def Let_def)
  have "unat (off' ! pi) < unat (prime_at e pi)
      \<and> (unat base_test + unat (step_C e) + unat (off' ! pi)) mod unat (prime_at e pi) = 0"
    if pi: "pi < unat (count_C (primes_C e))" for pi
  proof -
    have l: "pi < length off" using pi len by simp
    have sm: "unat (step_mod_C e ! pi) = unat (step_C e) mod unat (prime_at e pi)"
      using assms(3) pi by blast
    have o: "unat (off ! pi) < unat (prime_at e pi)"
      "(unat base_test + unat (off ! pi)) mod unat (prime_at e pi) = 0"
      using assms(2) pi by (simp_all add: offsets_ok_def Let_def)
    show ?thesis
      unfolding sieve_window_off(2)[OF r pi l]
      using sm o by (rule carry_offset_correct)
  qed
  thus ?thesis using r by blast
qed

theorem sieve_carries_offset_witness:
  "epoch_primes_ok example_epoch \<and> offsets_ok example_epoch 9 [1, 0]
   \<and> sieve_window_bad_bits_carried_fastdiv example_epoch 9 4 [1, 0] (replicate 7 0) [0]
       = Some ([1, 2], [1, 5, 11, 1, 13, 7, 5], [9])
   \<and> unat (1 :: u32) < 2 \<and> (unat (9 :: u64) + unat (4 :: u64) + unat (1 :: u32)) mod 2 = 0
   \<and> unat (2 :: u32) < 3 \<and> (unat (9 :: u64) + unat (4 :: u64) + unat (2 :: u32)) mod 3 = 0"
proof -
  have h: "epoch_primes_ok example_epoch" "offsets_ok example_epoch 9 [1, 0]" by code_simp+
  have sm: "\<forall>pi < unat (count_C (primes_C example_epoch)).
      unat (step_mod_C example_epoch ! pi)
      = unat (step_C example_epoch) mod unat (prime_at example_epoch pi)"
  proof (intro allI impI)
    fix pi assume "pi < unat (count_C (primes_C example_epoch))"
    hence "pi < 2" by (simp add: example_epoch_def)
    hence "pi = 0 \<or> pi = 1" by auto
    thus "unat (step_mod_C example_epoch ! pi)
      = unat (step_C example_epoch) mod unat (prime_at example_epoch pi)"
      by (auto simp: example_epoch_def prime_at_def)
  qed
  have n: "1 \<le> unat (9 :: u64)"
    "unat (9 :: u64) + unat (4 :: u32) + unat (k_C example_epoch) \<le> 2^64"
    "unat (4 :: u32) + 2 * unat (k_C example_epoch) + 8 \<le> 2^32"
    "unat (4 :: u32) + unat (k_C example_epoch) \<le> length (replicate 7 (0 :: u64))"
    "unat (4 :: u32) + unat (k_C example_epoch) \<le> 8 * length [0 :: u8]"
    by (simp_all add: example_epoch_def)
  have run: "sieve_window_bad_bits_carried_fastdiv example_epoch 9 4 [1, 0] (replicate 7 0) [0]
       = Some ([1, 2], [1, 5, 11, 1, 13, 7, 5], [9])" by code_simp
  from sieve_carries_offset[OF h sm n] run
  have a: "\<forall>pi < unat (count_C (primes_C example_epoch)).
      unat ([1, 2 :: u32] ! pi) < unat (prime_at example_epoch pi)
      \<and> (unat (9 :: u64) + unat (step_C example_epoch) + unat ([1, 2 :: u32] ! pi))
          mod unat (prime_at example_epoch pi) = 0"
    by simp
  have c: "(0 :: nat) < unat (count_C (primes_C example_epoch))"
    "(1 :: nat) < unat (count_C (primes_C example_epoch))"
    by (simp_all add: example_epoch_def)
  from a c(1) have "unat ([1, 2 :: u32] ! 0) < unat (prime_at example_epoch 0)
      \<and> (unat (9 :: u64) + unat (step_C example_epoch) + unat ([1, 2 :: u32] ! 0))
          mod unat (prime_at example_epoch 0) = 0" by blast
  moreover from a c(2) have "unat ([1, 2 :: u32] ! 1) < unat (prime_at example_epoch 1)
      \<and> (unat (9 :: u64) + unat (step_C example_epoch) + unat ([1, 2 :: u32] ! 1))
          mod unat (prime_at example_epoch 1) = 0" by blast
  ultimately show ?thesis using h run by (simp add: example_epoch_def prime_at_def)
qed

section \<open>The argument of the count of trailing zeros\<close>

text \<open>
  Claim C8.  Let the prime list be that of the epoch with \<open>k \<ge> 2\<close>: then 2 is \<open>P[0]\<close> and
  no other entry is 2, so the branch for p = 2 is taken in the first pass only, on the
  residuals as seeded.  If \<open>off[0]\<close> is the least \<open>i \<ge> 0\<close> with \<open>base_test + i\<close> even,
  \<open>base_test \<ge> 1\<close> and the window stays within the machine integers, then every value x
  that pass reads is nonzero and even, so \<open>__builtin_ctzll\<close> is defined on it and positive,
  and \<open>x >> ctz(x)\<close> is odd with \<open>x = 2^ctz(x) * (x >> ctz(x))\<close>.
\<close>

theorem ctz_argument_even_nonzero:
  assumes ok: "epoch_primes_ok e" and k2: "2 \<le> unat (k_C e)"
    and off2: "unat (off ! 0) < 2" "(unat base_test + unat (off ! 0)) mod 2 = 0"
    and base: "1 \<le> unat base_test" "unat base_test + unat start_count + unat (k_C e) \<le> 2^64"
    and nowrap: "unat start_count + unat (k_C e) + 2 \<le> 2^32"
    and len: "unat start_count + unat (k_C e) \<le> length residual"
  shows "prime_at e 0 = 2
      \<and> (\<forall>pi < unat (count_C (primes_C e)). prime_at e pi = 2 \<longrightarrow> pi = 0)
      \<and> (\<exists>xs. sieve_multiples_visited (prime_at e 0) (fd_C e ! 0) (start_count + k_C e) (off ! 0)
               (fold (\<lambda>i r. r[i := base_test + of_nat i]) [0..<unat (start_count + k_C e)] residual)
             = Some xs
           \<and> (\<forall>x \<in> set xs. x \<noteq> 0 \<and> even (unat x)
                \<and> (\<exists>n. builtin_ctzll x = Some n \<and> 0 < n
                       \<and> unat x = 2 ^ n * unat (drop_bit n x) \<and> odd (unat (drop_bit n x)))))"
proof -
  let ?wl = "start_count + k_C e"
  note two = first_prime_is_two[OF ok k2]
  have wl: "unat ?wl = unat start_count + unat (k_C e)"
    using nowrap by (simp add: unat_word_ariths)
  define res0 where "res0 = fold (\<lambda>i r. r[i := base_test + of_nat i]) [0..<unat ?wl] residual"
  have seed: "length res0 = length residual" "\<forall>j < unat ?wl. res0 ! j = base_test + of_nat j"
    unfolding res0_def using fold_seed[of "unat ?wl" residual "\<lambda>i. base_test + of_nat i"] len wl
    by simp_all
  have val: "unat (res0 ! j) = unat base_test + j" if "j < unat ?wl" for j
  proof -
    have "j < 2^64" using that wl nowrap by simp
    hence "unat (of_nat j :: u64) = j" by (simp add: unat_of_nat)
    moreover have "unat base_test + j < 2^64" using that wl base(2) by simp
    ultimately have "unat (base_test + of_nat j) = unat base_test + j"
      by (simp add: unat_word_ariths)
    thus ?thesis using seed(2) that by simp
  qed
  have nz: "\<forall>j < unat ?wl. res0 ! j \<noteq> 0"
  proof (intro allI impI)
    fix j assume "j < unat ?wl"
    hence "0 < unat (res0 ! j)" using val base(1) by simp
    thus "res0 ! j \<noteq> 0" by (simp add: unat_gt_0)
  qed
  have pr2: "is_prime (unat (2 :: u32))" by (simp add: is_prime_def)
  have fd0: "fd_C e ! 0 = fastdiv_u32_make_prime 2"
    using epoch_primes_ok_nth(3)[OF ok two(1)] two(2) by simp
  have nw: "unat ?wl + unat (2 :: u32) \<le> 2^32" using wl nowrap by simp
  have len0: "unat ?wl \<le> length res0" using seed(1) len wl by simp
  from sieve_multiples_visited_correct[OF pr2 nw len0 nz, of "off ! 0"] obtain xs where
    xs: "sieve_multiples_visited 2 (fastdiv_u32_make_prime 2) ?wl (off ! 0) res0 = Some xs"
      "set xs = (\<lambda>j. res0 ! j) ` {j. j < unat ?wl \<and> (\<exists>t. j = unat (off ! 0) + t * unat (2 :: u32))}"
    by blast
  have good: "x \<noteq> 0 \<and> even (unat x)
       \<and> (\<exists>n. builtin_ctzll x = Some n \<and> 0 < n
              \<and> unat x = 2 ^ n * unat (drop_bit n x) \<and> odd (unat (drop_bit n x)))"
    if "x \<in> set xs" for x
  proof -
    from that xs(2) obtain j t where j: "j < unat ?wl" "j = unat (off ! 0) + t * 2" "x = res0 ! j"
      by auto
    have xv: "unat x = unat base_test + unat (off ! 0) + t * 2" using val[OF j(1)] j(2,3) by simp
    have "even (unat base_test + unat (off ! 0))" using off2(2) by presburger
    hence ev: "even (unat x)" using xv by simp
    have xnz: "x \<noteq> 0" using nz j by simp
    from builtin_ctzll_strips[OF xnz] obtain n where
      n: "builtin_ctzll x = Some n" "unat x = 2 ^ n * unat (drop_bit n x)" "odd (unat (drop_bit n x))"
      by blast
    have "0 < n"
    proof (rule ccontr)
      assume "\<not> 0 < n"
      hence "unat x = unat (drop_bit n x)" using n(2) by simp
      thus False using ev n(3) by simp
    qed
    thus ?thesis using xnz ev n by blast
  qed
  show ?thesis using two(2,3) xs(1) good by (simp add: fd0 res0_def)
qed

theorem ctz_argument_even_nonzero_witness:
  "epoch_primes_ok example_epoch \<and> 2 \<le> unat (k_C example_epoch)
   \<and> unat ([1, 0 :: u32] ! 0) < 2 \<and> (unat (9 :: u64) + unat ([1, 0 :: u32] ! 0)) mod 2 = 0
   \<and> prime_at example_epoch 0 = 2
   \<and> sieve_multiples_visited 2 (fd_C example_epoch ! 0) 7 1 [9, 10, 11, 12, 13, 14, 15]
       = Some [10, 12, 14]
   \<and> builtin_ctzll 12 = Some 2 \<and> drop_bit 2 (12 :: u64) = 3
   \<and> (\<exists>xs. sieve_multiples_visited (prime_at example_epoch 0) (fd_C example_epoch ! 0)
              (4 + k_C example_epoch) ([1, 0] ! 0)
              (fold (\<lambda>i r. r[i := 9 + of_nat i]) [0..<unat (4 + k_C example_epoch)] (replicate 7 0))
            = Some xs
          \<and> list_all (\<lambda>x. x \<noteq> 0 \<and> even (unat x)) xs)"
proof -
  have h: "epoch_primes_ok example_epoch" by code_simp
  have n: "2 \<le> unat (k_C example_epoch)"
    "unat ([1, 0 :: u32] ! 0) < 2" "(unat (9 :: u64) + unat ([1, 0 :: u32] ! 0)) mod 2 = 0"
    "1 \<le> unat (9 :: u64)"
    "unat (9 :: u64) + unat (4 :: u32) + unat (k_C example_epoch) \<le> 2^64"
    "unat (4 :: u32) + unat (k_C example_epoch) + 2 \<le> 2^32"
    "unat (4 :: u32) + unat (k_C example_epoch) \<le> length (replicate 7 (0 :: u64))"
    by (simp_all add: example_epoch_def)
  have run: "sieve_multiples_visited 2 (fd_C example_epoch ! 0) 7 1 [9, 10, 11, 12, 13, 14, 15]
       = Some [10, 12, 14]" by code_simp
  have c: "builtin_ctzll 12 = Some 2" "drop_bit 2 (12 :: u64) = 3" by code_simp+
  from ctz_argument_even_nonzero[OF h n]
  have "prime_at example_epoch 0 = 2"
    and "\<exists>xs. sieve_multiples_visited (prime_at example_epoch 0) (fd_C example_epoch ! 0)
              (4 + k_C example_epoch) ([1, 0] ! 0)
              (fold (\<lambda>i r. r[i := 9 + of_nat i]) [0..<unat (4 + k_C example_epoch)] (replicate 7 0))
            = Some xs
          \<and> list_all (\<lambda>x. x \<noteq> 0 \<and> even (unat x)) xs"
    by (auto simp: list_all_iff)
  thus ?thesis using h n(1,2,3) run c by simp
qed

section \<open>One epoch when a worker takes two start packets\<close>

lemma is_prime_list: "is_prime p = (2 \<le> p \<and> list_all (\<lambda>q. \<not> q dvd p) [2..<p])"
  by (auto simp: is_prime_def list_all_iff)

lemma k_smooth_list:
  "k_smooth k n = (0 < n \<and> list_all (\<lambda>q. is_prime q \<and> q dvd n \<longrightarrow> q \<le> k) [2..<Suc n])"
  by (auto simp: k_smooth_def list_all_iff)

lemma not_smooth_13_14_15:
  "\<not> k_smooth 3 13 \<and> \<not> k_smooth 3 14 \<and> \<not> k_smooth 3 15"
  unfolding k_smooth_list is_prime_list by (simp add: upt_rec)

lemma smooth_1_not_2: "k_smooth 1 1 \<and> \<not> k_smooth 1 2"
  unfolding k_smooth_list is_prime_list by (simp add: upt_rec)

lemma epoch_k3_worker0_twice:
  "epoch_search (\<lambda>n. True) (\<lambda>t. 0) 2 3 8 15 4 = Some UINT64_MAX"
  by code_simp

lemma epoch_k3_alternating:
  "epoch_search (\<lambda>n. True) (\<lambda>t. t mod 2) 2 3 8 15 4 = Some 12"
  by code_simp

lemma epoch_k3_one_thread:
  "epoch_search (\<lambda>n. True) (\<lambda>t. 0) 1 3 8 15 4 = Some 12"
  by code_simp

lemma epoch_k1_worker0_twice:
  "epoch_search (\<lambda>n. True) (\<lambda>t. 0) 2 1 0 1 1 = Some UINT64_MAX"
  by code_simp

lemma epoch_k1_alternating:
  "epoch_search (\<lambda>n. True) (\<lambda>t. t mod 2) 2 1 0 1 1 = Some 1"
  by code_simp

lemma main_two_threads_worker0_twice:
  "map_option fst (main_run (\<lambda>n. True) (\<lambda>t. 0) 4 1 2 1 2) = Some [(1, 2)]"
  by code_simp

lemma main_two_threads_alternating:
  "map_option fst (main_run (\<lambda>n. True) (\<lambda>t. t mod 2) 4 1 2 1 2) = Some [(1, 1)]"
  by code_simp

text \<open>
  Claim C1.  The claim is that for every k, span and thread count in {1, 2, 7, 16} the
  search over the span returns the minimal m of the span.  With two threads the result
  depends on which worker takes the two \<open>KEY_START\<close> packets of the epoch.  For k = 3,
  the span [8, 15] and \<open>tile_len = 4\<close>, m = 12 is in the span and none of 13, 14, 15 is
  3-smooth: the search returns 12 with one thread, and with two threads when each worker
  takes one packet; when worker 0 takes both packets (it is back in
  \<open>GetQueuedCompletionStatus\<close> before worker 1 has taken one), the tiles of worker 1 are
  never scanned, the event is set by the second \<open>worker_epoch_done\<close> of worker 0, and the
  search returns \<open>UINT64_MAX\<close>, no result.  For k = 1, the span [0, 1] and \<open>tile_len = 1\<close>
  the same happens with m = 1 (2 is not 1-smooth, 1 is), and \<open>main\<close> with K = 1, two
  threads, \<open>tile_len = 1\<close> and \<open>batch_tiles = 2\<close> then prints the row (1, 2) instead of (1, 1).
\<close>

theorem epoch_search_misses_minimum_when_worker_starts_twice:
  "epoch_search (\<lambda>n. True) (\<lambda>t. 0) 2 3 8 15 4 = Some UINT64_MAX
   \<and> epoch_search (\<lambda>n. True) (\<lambda>t. t mod 2) 2 3 8 15 4 = Some 12
   \<and> epoch_search (\<lambda>n. True) (\<lambda>t. 0) 1 3 8 15 4 = Some 12
   \<and> \<not> k_smooth 3 13 \<and> \<not> k_smooth 3 14 \<and> \<not> k_smooth 3 15
   \<and> epoch_search (\<lambda>n. True) (\<lambda>t. 0) 2 1 0 1 1 = Some UINT64_MAX
   \<and> epoch_search (\<lambda>n. True) (\<lambda>t. t mod 2) 2 1 0 1 1 = Some 1
   \<and> k_smooth 1 1 \<and> \<not> k_smooth 1 2
   \<and> map_option fst (main_run (\<lambda>n. True) (\<lambda>t. 0) 4 1 2 1 2) = Some [(1, 2)]
   \<and> map_option fst (main_run (\<lambda>n. True) (\<lambda>t. t mod 2) 4 1 2 1 2) = Some [(1, 1)]"
  using not_smooth_13_14_15 smooth_1_not_2 epoch_k3_worker0_twice epoch_k3_alternating
    epoch_k3_one_thread epoch_k1_worker0_twice epoch_k1_alternating
    main_two_threads_worker0_twice main_two_threads_alternating
  by simp

theorem epoch_search_misses_minimum_when_worker_starts_twice_witness:
  "epoch_search (\<lambda>n. True) (\<lambda>t. 0) 2 3 8 15 4
   \<noteq> epoch_search (\<lambda>n. True) (\<lambda>t. t mod 2) 2 3 8 15 4"
  using epoch_search_misses_minimum_when_worker_starts_twice by simp

section \<open>The run of main for K = 10 with one thread\<close>




























































end
